theory Spec2Isabelle
  imports Main
begin

section \<open>Strings as byte lists and the library calls of \<open>gobuild.go\<close>\<close>

text \<open>
  A Go \<open>string\<close> is a sequence of bytes, modelled as \<open>string\<close> (a list of 8-bit
  \<open>char\<close>s). \<open>args[i]\<close> reads a byte and \<open>len\<close> counts bytes, as \<open>!\<close> and \<open>length\<close> do.
  The file paths are those of a Unix system: \<open>filepath.Separator\<close> is \<open>/\<close> and there
  are no volume names.
\<close>

subsection \<open>\<open>strings.TrimSpace\<close>\<close>

text \<open>
  \<open>strings.TrimSpace\<close> removes leading and trailing white space as \<open>unicode.IsSpace\<close>
  defines it on the runes decoded from UTF-8. A white-space rune is one of the byte
  sequences below: the six ASCII ones (tab, line feed, vertical tab, form feed, carriage
  return, space), U+0085, U+00A0, U+1680, U+2000 to U+200A, U+2028, U+2029, U+202F,
  U+205F and U+3000. Any other byte sequence, also an invalid one, decodes to a rune
  that is not white space. The encoding of a rune is a lead byte followed by continuation
  bytes only, so decoding the first (last) rune finds a white-space rune exactly when one
  of these sequences is a prefix (suffix) of the string.
\<close>

definition space_runes :: "string list" where
  "space_runes =
    [[CHR 0x09], [CHR 0x0A], [CHR 0x0B], [CHR 0x0C], [CHR 0x0D], [CHR 0x20],
     [CHR 0xC2, CHR 0x85], [CHR 0xC2, CHR 0xA0],
     [CHR 0xE1, CHR 0x9A, CHR 0x80],
     [CHR 0xE2, CHR 0x80, CHR 0x80], [CHR 0xE2, CHR 0x80, CHR 0x81],
     [CHR 0xE2, CHR 0x80, CHR 0x82], [CHR 0xE2, CHR 0x80, CHR 0x83],
     [CHR 0xE2, CHR 0x80, CHR 0x84], [CHR 0xE2, CHR 0x80, CHR 0x85],
     [CHR 0xE2, CHR 0x80, CHR 0x86], [CHR 0xE2, CHR 0x80, CHR 0x87],
     [CHR 0xE2, CHR 0x80, CHR 0x88], [CHR 0xE2, CHR 0x80, CHR 0x89],
     [CHR 0xE2, CHR 0x80, CHR 0x8A],
     [CHR 0xE2, CHR 0x80, CHR 0xA8], [CHR 0xE2, CHR 0x80, CHR 0xA9],
     [CHR 0xE2, CHR 0x80, CHR 0xAF],
     [CHR 0xE2, CHR 0x81, CHR 0x9F],
     [CHR 0xE3, CHR 0x80, CHR 0x80]]"

definition HasPrefix :: "string \<Rightarrow> string \<Rightarrow> bool" where
  "HasPrefix s p = (length p \<le> length s \<and> take (length p) s = p)"

definition HasSuffix :: "string \<Rightarrow> string \<Rightarrow> bool" where
  "HasSuffix s p = (length p \<le> length s \<and> drop (length s - length p) s = p)"

definition leading_space :: "string \<Rightarrow> string option" where
  "leading_space s = find (\<lambda>r. r \<noteq> [] \<and> HasPrefix s r) space_runes"

definition trailing_space :: "string \<Rightarrow> string option" where
  "trailing_space s = find (\<lambda>r. r \<noteq> [] \<and> HasSuffix s r) space_runes"

lemma leading_space_SomeD:
  "leading_space s = Some r \<Longrightarrow> r \<noteq> [] \<and> HasPrefix s r"
  unfolding leading_space_def by (auto simp: find_Some_iff)

lemma trailing_space_SomeD:
  "trailing_space s = Some r \<Longrightarrow> r \<noteq> [] \<and> HasSuffix s r"
  unfolding trailing_space_def by (auto simp: find_Some_iff)

function trim_left :: "string \<Rightarrow> string" where
  "trim_left s =
     (case leading_space s of
        None \<Rightarrow> s
      | Some r \<Rightarrow> trim_left (drop (length r) s))"
  by pat_completeness auto
termination
proof (relation "measure length")
  show "wf (measure length)" by simp
next
  fix s r assume "leading_space s = Some r"
  then have "r \<noteq> []" "HasPrefix s r" by (auto dest: leading_space_SomeD)
  then show "(drop (length r) s, s) \<in> measure length"
    by (cases r) (auto simp: HasPrefix_def)
qed

function trim_right :: "string \<Rightarrow> string" where
  "trim_right s =
     (case trailing_space s of
        None \<Rightarrow> s
      | Some r \<Rightarrow> trim_right (take (length s - length r) s))"
  by pat_completeness auto
termination
proof (relation "measure length")
  show "wf (measure length)" by simp
next
  fix s r assume "trailing_space s = Some r"
  then have "r \<noteq> []" "HasSuffix s r" by (auto dest: trailing_space_SomeD)
  then show "(take (length s - length r) s, s) \<in> measure length"
    by (cases r) (auto simp: HasSuffix_def)
qed

declare trim_left.simps [simp del] trim_right.simps [simp del]

definition TrimSpace :: "string \<Rightarrow> string" where
  "TrimSpace s = trim_right (trim_left s)"

subsection \<open>\<open>strings.Split\<close>, \<open>strings.Join\<close>, \<open>strings.Index\<close>\<close>

text \<open>
  \<open>strings.Split(s, sep)\<close> for a separator of one byte: the pieces between the
  separators, one more than there are separators, so the empty string gives one empty
  piece.
\<close>

fun Split :: "string \<Rightarrow> char \<Rightarrow> string list" where
  "Split [] c = [[]]"
| "Split (x # xs) c =
     (if x = c then [] # Split xs c
      else (case Split xs c of
              [] \<Rightarrow> [[x]]
            | w # ws \<Rightarrow> (x # w) # ws))"

fun Join_strings :: "string list \<Rightarrow> string \<Rightarrow> string" where
  "Join_strings [] sep = []"
| "Join_strings [x] sep = x"
| "Join_strings (x # y # ys) sep = x @ sep @ Join_strings (y # ys) sep"

text \<open>\<open>strings.Index(s, sub)\<close>: the index of the first occurrence, or \<open>-1\<close>.\<close>

fun Index_from :: "string \<Rightarrow> string \<Rightarrow> nat \<Rightarrow> int" where
  "Index_from [] sub i = (if sub = [] then int i else - 1)"
| "Index_from (x # xs) sub i =
     (if HasPrefix (x # xs) sub then int i else Index_from xs sub (i + 1))"

definition Index :: "string \<Rightarrow> string \<Rightarrow> int" where
  "Index s sub = Index_from s sub 0"

definition IndexByte :: "string \<Rightarrow> char \<Rightarrow> int" where
  "IndexByte s c = Index_from s [c] 0"

section \<open>The argument tokenizer: \<open>splitArgs\<close> and \<open>appendArg\<close>\<close>

text \<open>
  A slice expression \<open>s[lo:hi]\<close> panics unless \<open>lo \<le> hi \<le> len(s)\<close>; the panic is the
  value \<open>None\<close>.
\<close>

definition slice :: "string \<Rightarrow> nat \<Rightarrow> nat \<Rightarrow> string option" where
  "slice s lo hi =
     (if lo \<le> hi \<and> hi \<le> length s then Some (take (hi - lo) (drop lo s)) else None)"

definition appendArg :: "string list \<Rightarrow> string \<Rightarrow> string list" where
  "appendArg args arg =
     (let arg' = TrimSpace arg in if arg' = [] then args else args @ [arg'])"

text \<open>
  The body of the \<open>for\<close> loop at \<open>index\<close>, on the loop's variables \<open>(ret, state, start)\<close>.
  \<open>state\<close> is a byte: \<open>0\<close> at first, then a space, or a double quote (byte \<open>0x22\<close>) inside
  a quoted span. A \<open>break\<close> inside the \<open>switch\<close> leaves the \<open>switch\<close>, not the loop. In
  the \<open>=\<close> case the source sets \<open>state\<close> to \<open>=\<close> and then to \<open>0\<close>, so it ends as \<open>0\<close>.
\<close>

type_synonym split_state = "string list \<times> char \<times> nat"

definition flush :: "string \<Rightarrow> nat \<Rightarrow> nat \<Rightarrow> string list \<Rightarrow> string list option" where
  "flush args start index ret =
     (case slice args start index of
        None \<Rightarrow> None
      | Some a \<Rightarrow> Some (appendArg ret a))"

definition splitArgs_step :: "string \<Rightarrow> nat \<Rightarrow> split_state \<Rightarrow> split_state option" where
  "splitArgs_step args index st =
     (case st of (ret, state, start) \<Rightarrow>
        let b = args ! index in
        if b = CHR '' '' then
          (if state = CHR 0x22 then Some (ret, state, start)
           else if state \<noteq> CHR '' '' then
             (case flush args start index ret of
                None \<Rightarrow> None
              | Some ret' \<Rightarrow> Some (ret', CHR '' '', index + 1))
           else Some (ret, state, index + 1))
        else if b = CHR ''='' then
          (if state = CHR 0x22 then Some (ret, state, start)
           else if state \<noteq> CHR ''='' then
             (case flush args start index ret of
                None \<Rightarrow> None
              | Some ret' \<Rightarrow> Some (ret', CHR 0x00, index + 1))
           else Some (ret, CHR 0x00, index + 1))
        else if b = CHR 0x22 then
          (if state = CHR 0x22 then
             (case flush args start index ret of
                None \<Rightarrow> None
              | Some ret' \<Rightarrow> Some (ret', CHR 0x00, index + 1))
           else if start \<noteq> index then
             (case flush args start index ret of
                None \<Rightarrow> None
              | Some ret' \<Rightarrow> Some (ret', CHR 0x22, index + 1))
           else Some (ret, CHR 0x22, index + 1))
        else
          (if state = CHR '' '' then Some (ret, CHR 0x00, index)
           else Some (ret, state, start)))"

function splitArgs_loop :: "string \<Rightarrow> nat \<Rightarrow> split_state \<Rightarrow> split_state option" where
  "splitArgs_loop args index st =
     (if index < length args then
        (case splitArgs_step args index st of
           None \<Rightarrow> None
         | Some st' \<Rightarrow> splitArgs_loop args (index + 1) st')
      else Some st)"
  by pat_completeness auto
termination
  by (relation "measure (\<lambda>(args, index, st). length args - index)") auto

declare splitArgs_loop.simps [simp del]

definition splitArgs_finish :: "string \<Rightarrow> split_state \<Rightarrow> string list option" where
  "splitArgs_finish args st =
     (case st of (ret, state, start) \<Rightarrow>
        if start < length args then flush args start (length args) ret else Some ret)"

definition splitArgs :: "string \<Rightarrow> string list option" where
  "splitArgs args =
     (case splitArgs_loop args 0 ([], CHR 0x00, 0) of
        None \<Rightarrow> None
      | Some st \<Rightarrow> splitArgs_finish args st)"

text \<open>
  Whether the loop of \<open>splitArgs\<close> is inside a quoted span when it has read all of \<open>p\<close>:
  a quote of \<open>p\<close> is still open.
\<close>

definition in_quote_after :: "string \<Rightarrow> bool" where
  "in_quote_after p =
     (case splitArgs_loop p 0 ([], CHR 0x00, 0) of
        None \<Rightarrow> False
      | Some (ret, state, start) \<Rightarrow> state = CHR 0x22)"

section \<open>The extension filter: \<open>getExts\<close>\<close>

fun getExts_loop :: "string list \<Rightarrow> string list \<Rightarrow> string list" where
  "getExts_loop [] ret = ret"
| "getExts_loop (ext # exts) ret =
     (let ext1 = TrimSpace ext in
      if length ext1 = 0 then getExts_loop exts ret
      else getExts_loop exts
             (ret @ [if hd ext1 \<noteq> CHR ''.'' then ''.'' @ ext1 else ext1]))"

definition getExts :: "string \<Rightarrow> string list" where
  "getExts extString = getExts_loop (Split extString CHR '','') []"

section \<open>File paths: \<open>path/filepath\<close> on Unix\<close>

definition Separator :: char where
  "Separator = CHR ''/''"

text \<open>
  \<open>filepath.Clean\<close> reads the path element by element and keeps the elements of the
  result in a buffer: an empty element and \<open>.\<close> are skipped; \<open>..\<close> removes the last
  element written when there is one that is not itself \<open>..\<close>, is dropped at the root of a
  rooted path, and is written otherwise; any other element is written. The result is
  the elements joined by \<open>/\<close>, after the leading \<open>/\<close> of a rooted path, and \<open>.\<close> when that
  is empty. \<open>clean_elem\<close> is one turn of that loop on the list of elements written so far.
\<close>

definition clean_elem :: "bool \<Rightarrow> string list \<Rightarrow> string \<Rightarrow> string list" where
  "clean_elem rooted out e =
     (if e = [] \<or> e = ''.'' then out
      else if e = ''..'' then
        (if out \<noteq> [] \<and> last out \<noteq> ''..'' then butlast out
         else if \<not> rooted then out @ [''..'']
         else out)
      else out @ [e])"

definition Clean :: "string \<Rightarrow> string" where
  "Clean path =
     (if path = [] then ''.''
      else
        let rooted = (hd path = Separator);
            out = foldl (clean_elem rooted) [] (Split path Separator);
            s = (if rooted then [Separator] else []) @ Join_strings out [Separator]
        in if s = [] then ''.'' else s)"

text \<open>\<open>filepath.Join\<close>: the elements from the first non-empty one on, joined and cleaned.\<close>

fun Join :: "string list \<Rightarrow> string" where
  "Join [] = []"
| "Join (e # es) = (if e \<noteq> [] then Clean (Join_strings (e # es) [Separator]) else Join es)"

definition IsAbs :: "string \<Rightarrow> bool" where
  "IsAbs path = HasPrefix path [Separator]"

text \<open>
  \<open>filepath.Base\<close>: the last element of the path, trailing separators removed first;
  \<open>.\<close> for the empty path and \<open>/\<close> for a path of separators only.
\<close>

definition Base :: "string \<Rightarrow> string" where
  "Base path =
     (if path = [] then ''.''
      else
        let p1 = rev (dropWhile (\<lambda>c. c = Separator) (rev path));
            p2 = rev (takeWhile (\<lambda>c. c \<noteq> Separator) (rev p1))
        in if p2 = [] then [Separator] else p2)"

text \<open>\<open>filepath.Dir\<close>: all but the last element of the path, cleaned.\<close>

definition Dir :: "string \<Rightarrow> string" where
  "Dir path = Clean (rev (dropWhile (\<lambda>c. c \<noteq> Separator) (rev path)))"

section \<open>The process environment and the file system\<close>

datatype error = ErrNoDir | ErrGetwd | ErrLstat | ErrReadDir | ErrWatcher

text \<open>
  What \<open>filepath.Walk\<close> finds at a path: something that is not a directory, a directory
  with its entries in the order they are read, a directory whose entries cannot be
  read, or an entry whose \<open>Lstat\<close> fails.
\<close>

datatype fsnode =
    Regular
  | Directory "(string \<times> fsnode) list"
  | NoList
  | NoStat

text \<open>
  The environment of a call: the result of \<open>os.Getwd\<close> (\<open>None\<close> when it fails), the
  value of the variable \<open>GOEXE\<close>, what \<open>Lstat\<close> finds at a root path (\<open>None\<close> when it
  fails), and the two methods of the builder whose code is in another file: whether
  \<open>initWatcher\<close> returns an error for the paths, and whether \<open>watch\<close> returns at all.
\<close>

record env =
  getwd :: "string option"
  goexe :: string
  lstat :: "string \<Rightarrow> fsnode option"
  initWatcher :: "string list \<Rightarrow> error option"
  watch_returns :: bool

text \<open>\<open>filepath.Abs\<close> on Unix.\<close>

definition Abs :: "'a env_scheme \<Rightarrow> string \<Rightarrow> error + string" where
  "Abs e path =
     (if IsAbs path then Inr (Clean path)
      else (case getwd e of
              None \<Rightarrow> Inl ErrGetwd
            | Some cwd \<Rightarrow> Inr (Join [cwd, path])))"

section \<open>The path expander: \<open>recursivePaths\<close>\<close>

text \<open>
  The closure \<open>walk\<close> of \<open>recursivePaths\<close>, on the slice \<open>ret\<close> it appends to: \<open>isDir\<close> is
  \<open>fi.IsDir()\<close> and \<open>err\<close> the error \<open>filepath.Walk\<close> passes.
\<close>

definition walk :: "string \<Rightarrow> bool \<Rightarrow> error option \<Rightarrow> string list \<Rightarrow> error + string list" where
  "walk path isDir err ret =
     (case err of
        Some e \<Rightarrow> Inl e
      | None \<Rightarrow> Inr (if isDir \<and> Index path ''/.'' < 0 then ret @ [path] else ret))"

text \<open>
  \<open>filepath.Walk\<close> with that closure: the root is visited under the path given, an
  entry under \<open>Join(path, name)\<close>, entries in the order read. The closure never returns
  \<open>SkipDir\<close>, so every directory is entered, and the first error ends the walk.
\<close>

fun fwalk :: "string \<Rightarrow> fsnode \<Rightarrow> string list \<Rightarrow> error + string list"
  and fwalk_entries :: "string \<Rightarrow> (string \<times> fsnode) list \<Rightarrow> string list \<Rightarrow> error + string list"
where
  "fwalk path Regular ret = walk path False None ret"
| "fwalk path NoStat ret = walk path False (Some ErrLstat) ret"
| "fwalk path NoList ret = walk path True (Some ErrReadDir) ret"
| "fwalk path (Directory es) ret =
     (case walk path True None ret of
        Inl e \<Rightarrow> Inl e
      | Inr ret' \<Rightarrow> fwalk_entries path es ret')"
| "fwalk_entries path [] ret = Inr ret"
| "fwalk_entries path ((name, n) # es) ret =
     (case fwalk (Join [path, name]) n ret of
        Inl e \<Rightarrow> Inl e
      | Inr ret' \<Rightarrow> fwalk_entries path es ret')"

definition Walk :: "'a env_scheme \<Rightarrow> string \<Rightarrow> string list \<Rightarrow> error + string list" where
  "Walk e root ret =
     (case lstat e root of
        None \<Rightarrow> walk root False (Some ErrLstat) ret
      | Some n \<Rightarrow> fwalk root n ret)"

text \<open>
  The loop over the roots: every walk appends to the same slice \<open>ret\<close>, and the first
  walk that fails ends \<open>recursivePaths\<close> with its error and no paths.
\<close>

fun walk_roots :: "'a env_scheme \<Rightarrow> string list \<Rightarrow> string list \<Rightarrow> error + string list" where
  "walk_roots e [] ret = Inr ret"
| "walk_roots e (path # paths) ret =
     (case Walk e path ret of
        Inl err \<Rightarrow> Inl err
      | Inr ret' \<Rightarrow> walk_roots e paths ret')"

definition recursivePaths :: "'a env_scheme \<Rightarrow> bool \<Rightarrow> string list \<Rightarrow> error + string list" where
  "recursivePaths e recursive paths =
     (if \<not> recursive then Inr paths else walk_roots e paths [])"

section \<open>The output name: \<open>getAppName\<close>\<close>

definition getAppName :: "'a env_scheme \<Rightarrow> string \<Rightarrow> string \<Rightarrow> error + string" where
  "getAppName e outputName wd =
     (let outputName1 = (if outputName = [] then Base wd else outputName);
          outputName2 =
            (if goexe e \<noteq> [] \<and> \<not> HasSuffix outputName1 (goexe e)
             then outputName1 @ goexe e else outputName1);
          outputName3 =
            (if IndexByte outputName2 CHR ''/'' < 0 \<or> IndexByte outputName2 Separator < 0
             then Join [wd, outputName2] else outputName2)
      in case Abs e outputName3 of
           Inl err \<Rightarrow> Inl err
         | Inr p \<Rightarrow> Inr p)"

section \<open>The entry point: \<open>Build\<close>\<close>

text \<open>
  The log events \<open>Build\<close> sends. A message is kept by its content, not as the text
  \<open>fmt.Sprint\<close> makes of it after a fixed prefix.
\<close>

datatype log_type = LogTypeInfo | LogTypeWarn

datatype message =
    MsgAppArgs "string list"
  | MsgNoExts
  | MsgExts "string list"
  | MsgAppName string

record Log =
  Type :: log_type
  Message :: message

text \<open>
  The fields of the builder that \<open>Build\<close> sets (the struct is declared in another
  file; its field \<open>logs\<close> is the channel \<open>Build\<close> is given).
\<close>

record builder =
  b_exts :: "string list"
  b_appName :: string
  b_wd :: string
  b_appArgs :: "string list"
  b_goCmdArgs :: "string list"

text \<open>
  The arguments of the \<open>go\<close> command. \<open>flags\<close> is a Go map; the list holds its entries
  in the order the \<open>range\<close> statement visits them, each key once.
\<close>

fun flag_args :: "(string \<times> string) list \<Rightarrow> string list \<Rightarrow> string list" where
  "flag_args [] args = args"
| "flag_args ((k, v) # kvs) args = flag_args kvs (args @ [''-'' @ k @ ''flags'', v])"

definition goCmdArgs :: "string \<Rightarrow> (string \<times> string) list \<Rightarrow> string \<Rightarrow> string list" where
  "goCmdArgs appName flags mainFiles =
     (let args0 = [''build'', ''-o'', appName];
          args1 = flag_args flags args0;
          args2 = args1 @ [''-v'']
      in if length mainFiles > 0 then args2 @ [mainFiles] else args2)"

text \<open>
  A channel holds the values its senders deliver. \<open>make(chan bool)\<close> is a new channel;
  \<open>Build\<close> gives it to nobody, so it has no sender. A receive returns the next value,
  or blocks (\<open>None\<close>) when there is none.
\<close>

datatype 'a chan = Chan "'a list"

definition make_chan :: "'a chan" where
  "make_chan = Chan []"

fun recv :: "'a chan \<Rightarrow> ('a \<times> 'a chan) option" where
  "recv (Chan []) = None"
| "recv (Chan (x # xs)) = Some (x, Chan xs)"

text \<open>
  The channel \<open>logs\<close> as the sender meets it: what becomes of each send of the call,
  counted from \<open>0\<close>. A send completes (a reader or a free buffer slot takes the value),
  blocks for ever (the channel is \<open>nil\<close>, or it is open, its buffer is full and nobody
  reads it), or panics (the channel is closed). A channel that is closed while the call
  runs completes some sends and panics at the next.
\<close>

datatype send_result = Sent | SendBlocks | SendPanics

type_synonym logs = "nat \<Rightarrow> send_result"

definition nil_chan :: logs where
  "nil_chan = (\<lambda>i. SendBlocks)"

definition closed_chan :: logs where
  "closed_chan = (\<lambda>i. SendPanics)"

definition read_chan :: logs where
  "read_chan = (\<lambda>i. Sent)"

text \<open>An open channel with room for \<open>n\<close> values that nobody reads.\<close>

definition unread_chan :: "nat \<Rightarrow> logs" where
  "unread_chan n = (\<lambda>i. if i < n then Sent else SendBlocks)"

text \<open>
  What a call of \<open>Build\<close> does, as far as its caller can see: how it ends (it returns
  an error or \<open>nil\<close>, it panics, or it never returns), the slice \<open>dir\<close> afterwards
  (a caller that passes \<open>dirs...\<close> shares it), the events in their order (a log whose
  send completed, the watcher initialised with the paths, the watch started, the build
  goroutine started, the watcher closed by the deferred call), and the builder once it
  is made.
\<close>

datatype outcome = Returns "error option" | Panics | Blocks

datatype event = Send Log | InitWatcher "string list" | Watch | GoBuild | CloseWatcher

record run =
  outcome :: outcome
  dir_after :: "string list"
  events :: "event list"
  built :: "builder option"

text \<open>
  The sends \<open>logs <- ...\<close> in their order, the first being send number \<open>i\<close> of the call:
  the events of the sends that completed, and \<open>Sent\<close> when all did, else what became of
  the first that did not. Nothing after that send is executed.
\<close>

fun send_logs :: "logs \<Rightarrow> nat \<Rightarrow> Log list \<Rightarrow> event list \<times> send_result" where
  "send_logs ch i [] = ([], Sent)"
| "send_logs ch i (l # ls) =
     (case ch i of
        Sent \<Rightarrow> (case send_logs ch (i + 1) ls of (ev, r) \<Rightarrow> (Send l # ev, r))
      | SendBlocks \<Rightarrow> ([], SendBlocks)
      | SendPanics \<Rightarrow> ([], SendPanics))"

declare send_logs.simps [simp del]

text \<open>The log of the \<open>switch\<close> on the number of extensions.\<close>

definition exts_log :: "string list \<Rightarrow> Log list" where
  "exts_log es =
     (if length es = 0 then [\<lparr>Type = LogTypeWarn, Message = MsgNoExts\<rparr>]
      else if length es > 0 then [\<lparr>Type = LogTypeInfo, Message = MsgExts es\<rparr>]
      else [])"

text \<open>
  \<open>Build\<close>. The builder is made first; then the three logs are sent, and only when all
  three sends have completed are the watch paths expanded and the watcher initialised.
\<close>

definition Build ::
  "env \<Rightarrow> logs \<Rightarrow> string \<Rightarrow> string \<Rightarrow> (string \<times> string) list \<Rightarrow> string \<Rightarrow> bool \<Rightarrow>
   string \<Rightarrow> string list \<Rightarrow> run"
where
  "Build e logs mainFiles outputName flags extString recursive appArgString dir =
     (if length dir < 1 then
        \<lparr>outcome = Returns (Some ErrNoDir), dir_after = dir, events = [], built = None\<rparr>
      else
        case Abs e (dir ! 0) of
          Inl err \<Rightarrow>
            \<lparr>outcome = Returns (Some err), dir_after = dir, events = [], built = None\<rparr>
        | Inr wd \<Rightarrow>
            let dir1 = dir[0 := wd] in
            case getAppName e outputName wd of
              Inl err \<Rightarrow>
                \<lparr>outcome = Returns (Some err), dir_after = dir1, events = [], built = None\<rparr>
            | Inr appName \<Rightarrow>
                let args = goCmdArgs appName flags mainFiles in
                case splitArgs appArgString of
                  None \<Rightarrow>
                    \<lparr>outcome = Panics, dir_after = dir1, events = [], built = None\<rparr>
                | Some toks \<Rightarrow>
                    let b = \<lparr>b_exts = getExts extString, b_appName = appName,
                             b_wd = Dir appName, b_appArgs = toks, b_goCmdArgs = args\<rparr>;
                        msgs = [\<lparr>Type = LogTypeInfo, Message = MsgAppArgs (b_appArgs b)\<rparr>]
                               @ exts_log (b_exts b)
                               @ [\<lparr>Type = LogTypeInfo, Message = MsgAppName (b_appName b)\<rparr>]
                    in
                    case send_logs logs 0 msgs of
                      (ev, SendBlocks) \<Rightarrow>
                        \<lparr>outcome = Blocks, dir_after = dir1, events = ev, built = Some b\<rparr>
                    | (ev, SendPanics) \<Rightarrow>
                        \<lparr>outcome = Panics, dir_after = dir1, events = ev, built = Some b\<rparr>
                    | (ev, Sent) \<Rightarrow>
                        (case recursivePaths e recursive dir1 of
                           Inl err \<Rightarrow>
                             \<lparr>outcome = Returns (Some err), dir_after = dir1, events = ev,
                              built = Some b\<rparr>
                         | Inr paths \<Rightarrow>
                             (case initWatcher e paths of
                                Some err \<Rightarrow>
                                  \<lparr>outcome = Returns (Some err), dir_after = dir1,
                                   events = ev @ [InitWatcher paths], built = Some b\<rparr>
                              | None \<Rightarrow>
                                  if \<not> watch_returns e then
                                    \<lparr>outcome = Blocks, dir_after = dir1,
                                     events = ev @ [InitWatcher paths, Watch],
                                     built = Some b\<rparr>
                                  else
                                    (case recv (make_chan :: bool chan) of
                                       None \<Rightarrow>
                                         \<lparr>outcome = Blocks, dir_after = dir1,
                                          events = ev @ [InitWatcher paths, Watch, GoBuild],
                                          built = Some b\<rparr>
                                     | Some _ \<Rightarrow>
                                         \<lparr>outcome = Returns None, dir_after = dir1,
                                          events = ev @ [InitWatcher paths, Watch, GoBuild,
                                                         CloseWatcher],
                                          built = Some b\<rparr>))))"

section \<open>Notions used in the statements\<close>

text \<open>Tokens that are non-empty and that trimming leaves as they are.\<close>

definition trimmed_tokens :: "string list \<Rightarrow> bool" where
  "trimmed_tokens ts = list_all (\<lambda>t. t \<noteq> [] \<and> TrimSpace t = t) ts"

text \<open>
  What \<open>getExts\<close> does to a trimmed, non-empty segment, and the entries it returns:
  non-empty, starting with a dot, trimmed, without a comma.
\<close>

definition dot_prefix :: "string \<Rightarrow> string" where
  "dot_prefix e = (if hd e \<noteq> CHR ''.'' then ''.'' @ e else e)"

definition ext_ok :: "string \<Rightarrow> bool" where
  "ext_ok e = (e \<noteq> [] \<and> hd e = CHR ''.'' \<and> TrimSpace e = e \<and> CHR '','' \<notin> set e)"

text \<open>
  The output name as the specification words it: the base name of the primary root when
  no name is given; the executable suffix appended unless the name already ends with
  it; the name resolved relative to the primary root when it holds no separator; and
  the whole made absolute.
\<close>

definition app_name_spec :: "'a env_scheme \<Rightarrow> string \<Rightarrow> string \<Rightarrow> error + string" where
  "app_name_spec e outputName wd =
     (let name1 = (if outputName = [] then Base wd else outputName);
          name2 = (if HasSuffix name1 (goexe e) then name1 else name1 @ goexe e);
          name3 = (if Separator \<notin> set name2 then Join [wd, name2] else name2)
      in Abs e name3)"

text \<open>The log channel takes the three sends of \<open>Build\<close>.\<close>

definition takes_three :: "logs \<Rightarrow> bool" where
  "takes_three ch = (ch 0 = Sent \<and> ch 1 = Sent \<and> ch 2 = Sent)"


text \<open>An event that is a log sent, not a step of the watcher.\<close>

fun is_log :: "event \<Rightarrow> bool" where
  "is_log (Send l) = True"
| "is_log ev = False"

text \<open>
  Example environments: a home directory with a project tree that has a \<open>.git\<close>
  directory, and the same with a working directory that cannot be determined.
\<close>

definition tree_proj :: fsnode where
  "tree_proj =
     Directory
       [(''.git'', Directory [(''objects'', Directory [])]),
        (''main.go'', Regular),
        (''src'', Directory [(''.x'', Directory []), (''y'', Directory [])])]"

definition env_home :: env where
  "env_home =
     \<lparr>getwd = Some ''/home/u'', goexe = ''.exe'',
      lstat = (\<lambda>p. if p = ''.'' \<or> p = ''/home/u/proj'' then Some tree_proj else None),
      initWatcher = (\<lambda>paths. None), watch_returns = True\<rparr>"

definition env_nocwd :: env where
  "env_nocwd = env_home\<lparr>getwd := None\<rparr>"

text \<open>
  A name that starts with a dot, and a path with such a segment after its first one
  (the segments are the pieces between the separators).
\<close>

definition hidden_name :: "string \<Rightarrow> bool" where
  "hidden_name c = (c \<noteq> [] \<and> hd c = CHR ''.'')"

definition hidden_after_first :: "string \<Rightarrow> bool" where
  "hidden_after_first p = list_ex hidden_name (tl (Split p Separator))"

text \<open>
  The directories of a subtree under the paths a walk from \<open>path\<close> gives them, in the
  order of the walk; a tree all of which can be read; the same for a root of the
  environment.
\<close>

fun dirs :: "string \<Rightarrow> fsnode \<Rightarrow> string list"
  and dirs_entries :: "string \<Rightarrow> (string \<times> fsnode) list \<Rightarrow> string list"
where
  "dirs path (Directory es) = path # dirs_entries path es"
| "dirs path NoList = [path]"
| "dirs path Regular = []"
| "dirs path NoStat = []"
| "dirs_entries path [] = []"
| "dirs_entries path ((name, n) # es) = dirs (Join [path, name]) n @ dirs_entries path es"

fun readable :: "fsnode \<Rightarrow> bool"
  and readable_entries :: "(string \<times> fsnode) list \<Rightarrow> bool"
where
  "readable (Directory es) = readable_entries es"
| "readable Regular = True"
| "readable NoList = False"
| "readable NoStat = False"
| "readable_entries [] = True"
| "readable_entries ((name, n) # es) = (readable n \<and> readable_entries es)"

definition root_dirs :: "'a env_scheme \<Rightarrow> string \<Rightarrow> string list" where
  "root_dirs e root = (case lstat e root of None \<Rightarrow> [] | Some n \<Rightarrow> dirs root n)"

definition root_readable :: "'a env_scheme \<Rightarrow> string \<Rightarrow> bool" where
  "root_readable e root = (case lstat e root of None \<Rightarrow> False | Some n \<Rightarrow> readable n)"

text \<open>
  A name a directory entry can have: not empty, not \<open>.\<close> or \<open>..\<close>, without separator;
  a tree whose entries all have such names.
\<close>

definition proper_name :: "string \<Rightarrow> bool" where
  "proper_name n = (n \<noteq> [] \<and> n \<noteq> ''.'' \<and> n \<noteq> ''..'' \<and> Separator \<notin> set n)"

fun proper_names :: "fsnode \<Rightarrow> bool"
  and proper_entries :: "(string \<times> fsnode) list \<Rightarrow> bool"
where
  "proper_names (Directory es) = proper_entries es"
| "proper_names Regular = True"
| "proper_names NoList = True"
| "proper_names NoStat = True"
| "proper_entries [] = True"
| "proper_entries ((name, n) # es) = (proper_name name \<and> proper_names n \<and> proper_entries es)"

text \<open>
  The directories of a subtree, each by the names on the way down from the root of the
  subtree, and the path the walk gives to such a chain of names.
\<close>

fun dir_chains :: "fsnode \<Rightarrow> string list list"
  and chains_entries :: "(string \<times> fsnode) list \<Rightarrow> string list list"
where
  "dir_chains (Directory es) = [] # chains_entries es"
| "dir_chains NoList = [[]]"
| "dir_chains Regular = []"
| "dir_chains NoStat = []"
| "chains_entries [] = []"
| "chains_entries ((name, n) # es) = map ((#) name) (dir_chains n) @ chains_entries es"

fun walk_path :: "string \<Rightarrow> string list \<Rightarrow> string" where
  "walk_path path [] = path"
| "walk_path path (name # names) = walk_path (Join [path, name]) names"

text \<open>
  The elements \<open>Clean\<close> keeps of a rooted and of a relative path, and the shape of the
  latter: some \<open>..\<close> first, then names.
\<close>

definition clean_stack :: "string \<Rightarrow> string list" where
  "clean_stack p = foldl (clean_elem True) [] (Split p Separator)"

definition rel_stack :: "string \<Rightarrow> string list" where
  "rel_stack p = foldl (clean_elem False) [] (Split p Separator)"

definition canon :: "string list \<Rightarrow> bool" where
  "canon cs = (\<exists>k ps. cs = replicate k ''..'' @ ps \<and> (\<forall>c \<in> set ps. proper_name c))"

section \<open>White space: what \<open>TrimSpace\<close> returns is trimmed\<close>

lemma trim_left_no_leading: "leading_space (trim_left s) = None"
proof (induction s rule: trim_left.induct)
  case (1 s)
  show ?case
  proof (cases "leading_space s")
    case None
    then show ?thesis by (simp add: trim_left.simps [of s])
  next
    case (Some r)
    with 1 show ?thesis by (simp add: trim_left.simps [of s])
  qed
qed

lemma trim_left_fixed: "leading_space s = None \<Longrightarrow> trim_left s = s"
  by (simp add: trim_left.simps [of s])

lemma trim_right_no_trailing: "trailing_space (trim_right s) = None"
proof (induction s rule: trim_right.induct)
  case (1 s)
  show ?case
  proof (cases "trailing_space s")
    case None
    then show ?thesis by (simp add: trim_right.simps [of s])
  next
    case (Some r)
    with 1 show ?thesis by (simp add: trim_right.simps [of s])
  qed
qed

lemma trim_right_fixed: "trailing_space s = None \<Longrightarrow> trim_right s = s"
  by (simp add: trim_right.simps [of s])

lemma trim_right_is_take: "\<exists>k. trim_right s = take k s"
proof (induction s rule: trim_right.induct)
  case (1 s)
  show ?case
  proof (cases "trailing_space s")
    case None
    then have "trim_right s = take (length s) s" by (simp add: trim_right.simps [of s])
    then show ?thesis by blast
  next
    case (Some r)
    with 1 obtain k where "trim_right (take (length s - length r) s) = take k (take (length s - length r) s)"
      by blast
    with Some have "trim_right s = take (min k (length s - length r)) s"
      by (simp add: trim_right.simps [of s])
    then show ?thesis by blast
  qed
qed

lemma HasPrefix_take: "HasPrefix (take k s) r \<Longrightarrow> HasPrefix s r"
  by (auto simp: HasPrefix_def min_def split: if_splits)

lemma leading_space_take:
  assumes "leading_space s = None" shows "leading_space (take k s) = None"
  using assms unfolding leading_space_def find_None_iff
  by (auto dest: HasPrefix_take)

lemma TrimSpace_no_leading: "leading_space (TrimSpace s) = None"
proof -
  obtain k where "trim_right (trim_left s) = take k (trim_left s)"
    using trim_right_is_take by blast
  then show ?thesis
    by (simp add: TrimSpace_def leading_space_take trim_left_no_leading)
qed

lemma TrimSpace_no_trailing: "trailing_space (TrimSpace s) = None"
  by (simp add: TrimSpace_def trim_right_no_trailing)

lemma TrimSpace_fixed:
  "leading_space s = None \<Longrightarrow> trailing_space s = None \<Longrightarrow> TrimSpace s = s"
  by (simp add: TrimSpace_def trim_left_fixed trim_right_fixed)

lemma TrimSpace_idem: "TrimSpace (TrimSpace s) = TrimSpace s"
  by (rule TrimSpace_fixed) (rule TrimSpace_no_leading, rule TrimSpace_no_trailing)

section \<open>The tokenizer never panics and returns trimmed, non-empty tokens\<close>

lemma appendArg_trimmed: "trimmed_tokens ret \<Longrightarrow> trimmed_tokens (appendArg ret a)"
  by (simp add: appendArg_def trimmed_tokens_def Let_def TrimSpace_idem)

lemma flush_trimmed:
  "flush args start index ret = Some ret' \<Longrightarrow> trimmed_tokens ret \<Longrightarrow> trimmed_tokens ret'"
  by (auto simp: flush_def appendArg_trimmed split: option.splits)

lemma step_trimmed:
  "splitArgs_step args index (ret, state, start) = Some (ret', state', start') \<Longrightarrow>
   trimmed_tokens ret \<Longrightarrow> trimmed_tokens ret'"
  by (auto simp: splitArgs_step_def Let_def split: if_splits option.splits dest: flush_trimmed)

lemma loop_trimmed:
  "splitArgs_loop args index st = Some st' \<Longrightarrow> trimmed_tokens (fst st) \<Longrightarrow>
   trimmed_tokens (fst st')"
proof (induction args index st rule: splitArgs_loop.induct)
  case (1 args index st)
  show ?case
  proof (cases "index < length args")
    case False
    with 1 show ?thesis by (simp add: splitArgs_loop.simps [of args index st])
  next
    case True
    with "1.prems" obtain st1 where s1: "splitArgs_step args index st = Some st1"
      and l1: "splitArgs_loop args (index + 1) st1 = Some st'"
      by (auto simp: splitArgs_loop.simps [of args index st] split: option.splits)
    obtain ret state start where st: "st = (ret, state, start)" by (cases st)
    obtain ret1 state1 start1 where st1: "st1 = (ret1, state1, start1)" by (cases st1)
    from s1 st st1 "1.prems"(2) have "trimmed_tokens (fst st1)"
      by (auto dest: step_trimmed)
    with "1.IH" [OF True s1 l1] show ?thesis .
  qed
qed

lemma flush_total: "start \<le> index \<Longrightarrow> index \<le> length args \<Longrightarrow>
  flush args start index ret = Some (appendArg ret (take (index - start) (drop start args)))"
  by (simp add: flush_def slice_def)

lemma step_total:
  assumes "index < length args" "start \<le> index"
  shows "\<exists>ret' state' start'. splitArgs_step args index (ret, state, start) = Some (ret', state', start')
           \<and> start' \<le> index + 1"
  using assms by (simp add: splitArgs_step_def Let_def flush_total)

lemma loop_total:
  "snd (snd st) \<le> index \<Longrightarrow> index \<le> length args \<Longrightarrow>
   \<exists>st'. splitArgs_loop args index st = Some st' \<and> snd (snd st') \<le> length args"
proof (induction args index st rule: splitArgs_loop.induct)
  case (1 args index st)
  show ?case
  proof (cases "index < length args")
    case False
    then have "splitArgs_loop args index st = Some st"
      by (simp add: splitArgs_loop.simps [of args index st])
    with "1.prems" False show ?thesis by auto
  next
    case True
    obtain ret state start where st: "st = (ret, state, start)" by (cases st)
    with "1.prems" have "start \<le> index" by simp
    from step_total [OF True this, of ret state] st
    obtain st1 where s1: "splitArgs_step args index st = Some st1" and b: "snd (snd st1) \<le> index + 1"
      by auto
    from True have "index + 1 \<le> length args" by simp
    from "1.IH" [OF True s1 b this] s1 True show ?thesis
      by (simp add: splitArgs_loop.simps [of args index st])
  qed
qed

lemma splitArgs_total: "\<exists>ts. splitArgs args = Some ts"
proof -
  obtain st' where l: "splitArgs_loop args 0 ([], CHR 0x00, 0) = Some st'"
    and b: "snd (snd st') \<le> length args"
    using loop_total [of "([], CHR 0x00, 0)" 0 args] by auto
  obtain ret state start where st: "st' = (ret, state, start)" by (cases st')
  with b have "start \<le> length args" by simp
  then show ?thesis
    by (simp add: splitArgs_def l st splitArgs_finish_def flush_total)
qed

lemma splitArgs_trimmed:
  assumes "splitArgs args = Some ts" shows "trimmed_tokens ts"
proof -
  from assms obtain st' where l: "splitArgs_loop args 0 ([], CHR 0x00, 0) = Some st'"
    and f: "splitArgs_finish args st' = Some ts"
    by (auto simp: splitArgs_def split: option.splits)
  have "trimmed_tokens (fst st')"
    using loop_trimmed [OF l] by (simp add: trimmed_tokens_def)
  with f show ?thesis
    by (auto simp: splitArgs_finish_def split: prod.splits if_splits dest: flush_trimmed)
qed

text \<open>
  Claim C4. For every input string the tokenizer returns (no slice expression of
  \<open>splitArgs\<close> is ever out of range), and every token it returns is non-empty and stays
  non-empty when trimmed again: no empty and no all-white-space token appears, whatever
  the empty quoted spans and runs of separators in the input.
\<close>

theorem splitArgs_tokens_nonempty:
  "\<exists>ts. splitArgs args = Some ts \<and> (\<forall>t \<in> set ts. t \<noteq> [] \<and> TrimSpace t \<noteq> [])"
proof -
  obtain ts where ts: "splitArgs args = Some ts" using splitArgs_total by blast
  then have "trimmed_tokens ts" by (rule splitArgs_trimmed)
  then have "\<forall>t \<in> set ts. t \<noteq> [] \<and> TrimSpace t \<noteq> []"
    by (auto simp: trimmed_tokens_def list_all_iff)
  with ts show ?thesis by blast
qed

theorem splitArgs_tokens_nonempty_witness:
  "splitArgs (''a '' @ [CHR 0x22, CHR 0x22] @ '' ==  b'') = Some [''a'', ''b'']
   \<and> TrimSpace ''a'' \<noteq> [] \<and> TrimSpace ''b'' \<noteq> []"
proof -
  have v: "splitArgs (''a '' @ [CHR 0x22, CHR 0x22] @ '' ==  b'') = Some [''a'', ''b'']"
    by code_simp
  from splitArgs_tokens_nonempty [of "''a '' @ [CHR 0x22, CHR 0x22] @ '' ==  b''"] v
  show ?thesis by auto
qed

section \<open>The tokenizer on the examples and on an unterminated quote\<close>

lemma TrimSpace_Nil: "TrimSpace [] = []"
proof -
  have "leading_space [] = None" "trailing_space [] = None"
    by (auto simp: leading_space_def trailing_space_def find_None_iff HasPrefix_def HasSuffix_def)
  then show ?thesis by (rule TrimSpace_fixed)
qed

lemma appendArg_Nil: "appendArg ret [] = ret"
  by (simp add: appendArg_def TrimSpace_Nil)

lemma appendArg_append: "appendArg ret a = ret @ appendArg [] a"
  by (simp add: appendArg_def Let_def)

lemma quoted_tail_inert:
  "\<forall>j. index \<le> j \<and> j < length args \<longrightarrow> args ! j \<noteq> CHR 0x22 \<Longrightarrow>
   splitArgs_loop args index (ret, CHR 0x22, start) = Some (ret, CHR 0x22, start)"
proof (induction "length args - index" arbitrary: index)
  case 0
  then show ?case by (simp add: splitArgs_loop.simps [of args index])
next
  case (Suc n)
  then have lt: "index < length args" by simp
  with Suc.prems have "args ! index \<noteq> CHR 0x22" by simp
  then have step: "splitArgs_step args index (ret, CHR 0x22, start) = Some (ret, CHR 0x22, start)"
    by (simp add: splitArgs_step_def Let_def)
  have "splitArgs_loop args (index + 1) (ret, CHR 0x22, start) = Some (ret, CHR 0x22, start)"
    using Suc.hyps(2) Suc.prems by (intro Suc.hyps(1)) auto
  with lt step show ?case by (simp add: splitArgs_loop.simps [of args index])
qed

lemma flush_append:
  "index \<le> length p \<Longrightarrow> flush (p @ q) start index ret = flush p start index ret"
  by (simp add: flush_def slice_def)

lemma step_append:
  "index < length p \<Longrightarrow> splitArgs_step (p @ q) index st = splitArgs_step p index st"
  by (cases st) (simp add: splitArgs_step_def nth_append flush_append Let_def)

lemma loop_append:
  "snd (snd st) \<le> index \<Longrightarrow> index \<le> length p \<Longrightarrow>
   \<exists>st1. splitArgs_loop p index st = Some st1 \<and> snd (snd st1) \<le> length p
      \<and> splitArgs_loop (p @ q) index st = splitArgs_loop (p @ q) (length p) st1"
proof (induction "length p - index" arbitrary: index st)
  case 0
  then have "index = length p" by simp
  with 0 show ?case by (simp add: splitArgs_loop.simps [of p "length p"])
next
  case (Suc n)
  then have lt: "index < length p" by simp
  obtain ret state start where st: "st = (ret, state, start)" by (cases st)
  with Suc.prems have "start \<le> index" by simp
  from step_total [OF lt this, of ret state] st
  obtain st1 where s1: "splitArgs_step p index st = Some st1" and b: "snd (snd st1) \<le> index + 1"
    by auto
  have "n = length p - (index + 1)" using Suc.hyps(2) by simp
  from Suc.hyps(1) [OF this b] lt
  obtain st2 where l2: "splitArgs_loop p (index + 1) st1 = Some st2" "snd (snd st2) \<le> length p"
    "splitArgs_loop (p @ q) (index + 1) st1 = splitArgs_loop (p @ q) (length p) st2"
    by auto
  have "splitArgs_loop p index st = splitArgs_loop p (index + 1) st1"
    using lt s1 by (simp add: splitArgs_loop.simps [of p index])
  moreover have "splitArgs_loop (p @ q) index st = splitArgs_loop (p @ q) (index + 1) st1"
    using lt s1 by (simp add: splitArgs_loop.simps [of "p @ q" index] step_append)
  ultimately show ?case using l2 by simp
qed

lemma unterminated_quote:
  assumes nq: "\<not> in_quote_after p" and s: "CHR 0x22 \<notin> set s"
  shows "\<exists>ts. splitArgs p = Some ts \<and> splitArgs (p @ CHR 0x22 # s) = Some (appendArg ts s)"
proof -
  let ?args = "p @ CHR 0x22 # s"
  let ?n = "length p"
  obtain st1 where l1: "splitArgs_loop p 0 ([], CHR 0x00, 0) = Some st1"
    and b1: "snd (snd st1) \<le> ?n"
    and l2: "splitArgs_loop ?args 0 ([], CHR 0x00, 0) = splitArgs_loop ?args ?n st1"
    using loop_append [of "([], CHR 0x00, 0)" 0 p "CHR 0x22 # s"] by auto
  obtain ret state start where st1: "st1 = (ret, state, start)" by (cases st1)
  from nq l1 st1 have state: "state \<noteq> CHR 0x22" by (simp add: in_quote_after_def)
  from b1 st1 have start: "start \<le> ?n" by simp
  define ts where "ts = (if start < ?n then appendArg ret (drop start p) else ret)"
  have p: "splitArgs p = Some ts"
    using start by (simp add: splitArgs_def l1 st1 splitArgs_finish_def flush_total ts_def)
  have step: "splitArgs_step ?args ?n st1 = Some (ts, CHR 0x22, ?n + 1)"
    using state start by (auto simp: splitArgs_step_def st1 flush_total ts_def)
  have "\<forall>j. ?n + 1 \<le> j \<and> j < length ?args \<longrightarrow> ?args ! j \<noteq> CHR 0x22"
  proof (intro allI impI)
    fix j assume j: "?n + 1 \<le> j \<and> j < length ?args"
    then have "?args ! j = s ! (j - ?n - 1)" by (simp add: nth_append nth_Cons')
    moreover from j have "j - ?n - 1 < length s" by auto
    ultimately show "?args ! j \<noteq> CHR 0x22" using s by (metis nth_mem)
  qed
  then have "splitArgs_loop ?args (?n + 1) (ts, CHR 0x22, ?n + 1) = Some (ts, CHR 0x22, ?n + 1)"
    by (rule quoted_tail_inert)
  with step have "splitArgs_loop ?args ?n st1 = Some (ts, CHR 0x22, ?n + 1)"
    by (simp add: splitArgs_loop.simps [of ?args ?n])
  with l2 have "splitArgs ?args = splitArgs_finish ?args (ts, CHR 0x22, ?n + 1)"
    by (simp add: splitArgs_def)
  also have "\<dots> = Some (appendArg ts s)"
    by (cases s) (simp_all add: splitArgs_finish_def flush_def slice_def appendArg_Nil)
  finally show ?thesis using p by blast
qed

text \<open>
  Claim C5. The tokenizer gives the three results of the examples: a = splits key from
  value, and a quoted span is one token with its inner space. A quote that is never
  closed still has its text flushed: when no quote of \<open>p\<close> is open and \<open>s\<close> holds no
  quote, the input \<open>p\<close>, quote, \<open>s\<close> gives the tokens of \<open>p\<close> followed by \<open>s\<close> up to the end of
  the string as one token (trimmed as every token is, so dropped when it is blank).
\<close>

theorem splitArgs_examples:
  "splitArgs '' a  b '' = Some [''a'', ''b''] \<and>
   splitArgs (''k='' @ [CHR 0x22] @ ''v x'' @ [CHR 0x22]) = Some [''k'', ''v x''] \<and>
   splitArgs ''a=b'' = Some [''a'', ''b''] \<and>
   (\<forall>p s. \<not> in_quote_after p \<and> CHR 0x22 \<notin> set s \<longrightarrow>
      (\<exists>ts. splitArgs p = Some ts \<and>
            splitArgs (p @ CHR 0x22 # s) = Some (appendArg ts s)))"
proof (intro conjI allI impI)
  show "splitArgs '' a  b '' = Some [''a'', ''b'']" by code_simp
  show "splitArgs (''k='' @ [CHR 0x22] @ ''v x'' @ [CHR 0x22]) = Some [''k'', ''v x'']"
    by code_simp
  show "splitArgs ''a=b'' = Some [''a'', ''b'']" by code_simp
next
  fix p s assume "\<not> in_quote_after p \<and> CHR 0x22 \<notin> set s"
  then show "\<exists>ts. splitArgs p = Some ts \<and>
            splitArgs (p @ CHR 0x22 # s) = Some (appendArg ts s)"
    by (simp add: unterminated_quote)
qed

theorem splitArgs_examples_witness:
  "\<not> in_quote_after ''a '' \<and> CHR 0x22 \<notin> set ''b c'' \<and>
   splitArgs ''a '' = Some [''a''] \<and>
   splitArgs (''a '' @ CHR 0x22 # ''b c'') = Some [''a'', ''b c'']"
proof -
  have h1: "\<not> in_quote_after ''a ''" by code_simp
  have h2: "CHR 0x22 \<notin> set ''b c''" by simp
  have v: "splitArgs ''a '' = Some [''a'']" by code_simp
  have a: "appendArg [''a''] ''b c'' = [''a'', ''b c'']" by code_simp
  from splitArgs_examples h1 h2
  have "\<exists>ts. splitArgs ''a '' = Some ts \<and>
          splitArgs (''a '' @ CHR 0x22 # ''b c'') = Some (appendArg ts ''b c'')"
    by blast
  with v a h1 h2 show ?thesis by auto
qed

section \<open>The extension filter returns dot-prefixed, trimmed entries\<close>

lemma getExts_loop_eq:
  "getExts_loop xs ret = ret @ map dot_prefix (filter (\<lambda>e. e \<noteq> []) (map TrimSpace xs))"
  by (induction xs arbitrary: ret) (simp_all add: Let_def dot_prefix_def)

lemma Split_nonempty: "Split s c \<noteq> []"
  by (induction s) (auto split: list.splits)

lemma Split_no_sep: "w \<in> set (Split s c) \<Longrightarrow> c \<notin> set w"
proof (induction s arbitrary: w)
  case Nil
  then show ?case by simp
next
  case (Cons x xs)
  then show ?case by (cases "Split xs c") (auto split: if_splits)
qed

lemma Split_piece: "c \<notin> set x \<Longrightarrow> Split x c = [x]"
  by (induction x) auto

lemma Split_append: "c \<notin> set x \<Longrightarrow> Split (x @ c # rest) c = x # Split rest c"
  by (induction x) auto

lemma Split_Join:
  "xs \<noteq> [] \<Longrightarrow> \<forall>x \<in> set xs. c \<notin> set x \<Longrightarrow> Split (Join_strings xs [c]) c = xs"
proof (induction xs "[c]" rule: Join_strings.induct)
  case 1
  then show ?case by simp
next
  case (2 x)
  then show ?case by (simp add: Split_piece)
next
  case (3 x y ys)
  then show ?case by (simp add: Split_append)
qed

lemma trim_left_is_drop: "\<exists>k. trim_left s = drop k s"
proof (induction s rule: trim_left.induct)
  case (1 s)
  show ?case
  proof (cases "leading_space s")
    case None
    then have "trim_left s = drop 0 s" by (simp add: trim_left.simps [of s])
    then show ?thesis by blast
  next
    case (Some r)
    with 1 obtain k where "trim_left (drop (length r) s) = drop k (drop (length r) s)"
      by blast
    with Some have "trim_left s = drop (k + length r) s"
      by (simp add: trim_left.simps [of s] add.commute)
    then show ?thesis by blast
  qed
qed

lemma set_TrimSpace: "set (TrimSpace s) \<subseteq> set s"
proof -
  obtain k where "trim_left s = drop k s" using trim_left_is_drop by blast
  moreover obtain j where "trim_right (trim_left s) = take j (trim_left s)"
    using trim_right_is_take by blast
  ultimately have "TrimSpace s = take j (drop k s)" by (simp add: TrimSpace_def)
  then show ?thesis by (metis set_drop_subset set_take_subset subset_trans)
qed

lemma space_runes_no_dot: "r \<in> set space_runes \<Longrightarrow> CHR ''.'' \<notin> set r"
  by (auto simp: space_runes_def)

lemma leading_space_dot: "leading_space (CHR ''.'' # t) = None"
proof -
  have "\<not> (r \<noteq> [] \<and> HasPrefix (CHR ''.'' # t) r)" if "r \<in> set space_runes" for r
  proof
    assume a: "r \<noteq> [] \<and> HasPrefix (CHR ''.'' # t) r"
    then obtain c r' where r: "r = c # r'" by (cases r) auto
    with a have "c = CHR ''.''" by (simp add: HasPrefix_def)
    with r space_runes_no_dot [OF that] show False by simp
  qed
  then show ?thesis by (simp add: leading_space_def find_None_iff)
qed

lemma trailing_space_dot:
  assumes "trailing_space t = None" shows "trailing_space (CHR ''.'' # t) = None"
proof -
  have "\<not> (r \<noteq> [] \<and> HasSuffix (CHR ''.'' # t) r)" if r: "r \<in> set space_runes" for r
  proof
    assume a: "r \<noteq> [] \<and> HasSuffix (CHR ''.'' # t) r"
    from assms r have nt: "\<not> (r \<noteq> [] \<and> HasSuffix t r)"
      by (simp add: trailing_space_def find_None_iff)
    show False
    proof (cases "length r \<le> length t")
      case True
      with a have "HasSuffix t r" by (simp add: HasSuffix_def Suc_diff_le)
      with a nt show False by simp
    next
      case False
      with a have "r = CHR ''.'' # t" by (simp add: HasSuffix_def)
      with space_runes_no_dot [OF r] show False by simp
    qed
  qed
  then show ?thesis by (simp add: trailing_space_def find_None_iff)
qed

lemma dot_prefix_ok:
  assumes "t = TrimSpace w" "t \<noteq> []" "CHR '','' \<notin> set w"
  shows "ext_ok (dot_prefix t)"
proof (cases "hd t = CHR ''.''")
  case True
  with assms set_TrimSpace [of w] show ?thesis
    by (auto simp: ext_ok_def dot_prefix_def TrimSpace_idem)
next
  case False
  have "TrimSpace (CHR ''.'' # t) = CHR ''.'' # t"
    using assms(1) by (intro TrimSpace_fixed leading_space_dot trailing_space_dot)
      (simp add: TrimSpace_no_trailing)
  with False assms set_TrimSpace [of w] show ?thesis
    by (auto simp: ext_ok_def dot_prefix_def)
qed

lemma getExts_ok: "e \<in> set (getExts s) \<Longrightarrow> ext_ok e"
  by (auto simp: getExts_def getExts_loop_eq dest: Split_no_sep intro!: dot_prefix_ok)

lemma getExts_loop_fixed:
  "\<forall>e \<in> set xs. ext_ok e \<Longrightarrow> getExts_loop xs [] = xs"
  by (induction xs) (auto simp: getExts_loop_eq ext_ok_def dot_prefix_def)

lemma getExts_Join_fixed:
  assumes "\<forall>e \<in> set xs. ext_ok e" shows "getExts (Join_strings xs '','') = xs"
proof (cases "xs = []")
  case True
  then show ?thesis by (simp add: getExts_def Let_def TrimSpace_Nil)
next
  case False
  with assms have "Split (Join_strings xs '','') CHR '','' = xs"
    by (intro Split_Join) (auto simp: ext_ok_def)
  with assms show ?thesis by (simp add: getExts_def getExts_loop_fixed)
qed

text \<open>
  Claim C6. The extension filter is idempotent on its own output: the entries it
  returns, joined by commas and filtered again, come back unchanged, for every input.
  On the two examples it returns the three dot-prefixed suffixes and the empty list.
\<close>

theorem getExts_idempotent:
  "getExts (Join_strings (getExts s) '','') = getExts s \<and>
   getExts '' go, .tpl ,, html'' = [''.go'', ''.tpl'', ''.html''] \<and>
   getExts '''' = []"
proof (intro conjI)
  show "getExts (Join_strings (getExts s) '','') = getExts s"
    by (rule getExts_Join_fixed) (simp add: getExts_ok)
  show "getExts '' go, .tpl ,, html'' = [''.go'', ''.tpl'', ''.html'']" by code_simp
  show "getExts '''' = []" by code_simp
qed

lemma getExts_dot_prefixed: "e \<in> set (getExts s) \<Longrightarrow> HasPrefix e ''.''"
  by (drule getExts_ok) (cases e; simp add: ext_ok_def HasPrefix_def)

text \<open>
  Claim C1. On the input \<open>*\<close> the extension filter returns the single entry \<open>.*\<close>: the
  segment is dot-prefixed like any other, and the entry \<open>*\<close> is in the output for no
  input at all, every entry starting with a dot.
\<close>

theorem getExts_star:
  "getExts ''*'' = [''.*''] \<and> ''*'' \<notin> set (getExts s)"
proof
  show "getExts ''*'' = [''.*'']" by code_simp
  show "''*'' \<notin> set (getExts s)"
  proof
    assume "''*'' \<in> set (getExts s)"
    then have "HasPrefix ''*'' ''.''" by (rule getExts_dot_prefixed)
    then show False by (simp add: HasPrefix_def)
  qed
qed

section \<open>The output name\<close>

lemma HasSuffix_Nil: "HasSuffix s []"
  by (simp add: HasSuffix_def)

lemma Index_from_byte: "(Index_from s [c] i < 0) = (c \<notin> set s)"
  by (induction s arbitrary: i) (auto simp: HasPrefix_def)

lemma IndexByte_neg: "(IndexByte s c < 0) = (c \<notin> set s)"
  by (simp add: IndexByte_def Index_from_byte)

lemma getAppName_eq_spec: "getAppName e outputName wd = app_name_spec e outputName wd"
proof -
  have "(case x of Inl err \<Rightarrow> Inl err | Inr p \<Rightarrow> Inr p) = x" for x :: "error + string"
    by (cases x) auto
  then show ?thesis
    by (auto simp: getAppName_def app_name_spec_def Let_def IndexByte_neg Separator_def HasSuffix_Nil)
qed

lemma IsAbs_Clean: "IsAbs p \<Longrightarrow> IsAbs (Clean p)"
  by (cases p) (auto simp: IsAbs_def HasPrefix_def Clean_def Let_def)

lemma IsAbs_Join: "IsAbs a \<Longrightarrow> IsAbs (Join [a, b])"
proof -
  assume a: "IsAbs a"
  then have ne: "a \<noteq> []" by (auto simp: IsAbs_def HasPrefix_def)
  from a have "IsAbs (a @ [Separator] @ b)" by (cases a) (auto simp: IsAbs_def HasPrefix_def)
  then have "IsAbs (Clean (a @ [Separator] @ b))" by (rule IsAbs_Clean)
  with ne show ?thesis by simp
qed

lemma Abs_IsAbs:
  assumes "\<forall>cwd. getwd e = Some cwd \<longrightarrow> IsAbs cwd" "Abs e path = Inr p"
  shows "IsAbs p"
  using assms
  by (auto simp: Abs_def IsAbs_Clean IsAbs_Join simp del: Join.simps
      split: if_splits option.splits)

text \<open>
  Claim C3. For every output name and primary root, \<open>getAppName\<close> computes the name the
  way the specification says (base name of the root for an empty name, the executable
  suffix of \<open>GOEXE\<close> appended unless already a suffix, a name without separator joined
  to the root, then made absolute); and whenever it returns a name, the name is an
  absolute path, the working directory reported by the system being one.
\<close>

theorem getAppName_resolution:
  assumes "\<forall>cwd. getwd e = Some cwd \<longrightarrow> IsAbs cwd"
  shows "getAppName e outputName wd = app_name_spec e outputName wd \<and>
         (\<forall>p. getAppName e outputName wd = Inr p \<longrightarrow> IsAbs p)"
proof (intro conjI allI impI)
  show "getAppName e outputName wd = app_name_spec e outputName wd"
    by (rule getAppName_eq_spec)
next
  fix p assume "getAppName e outputName wd = Inr p"
  then obtain x where "Abs e x = Inr p"
    by (auto simp: getAppName_def Let_def split: sum.splits)
  with assms show "IsAbs p" by (rule Abs_IsAbs)
qed

theorem getAppName_resolution_witness:
  "getwd env_home = Some ''/home/u'' \<and> IsAbs ''/home/u'' \<and>
   getAppName env_home '''' ''/home/u/proj'' = Inr ''/home/u/proj/proj.exe'' \<and>
   app_name_spec env_home '''' ''/home/u/proj'' = Inr ''/home/u/proj/proj.exe'' \<and>
   IsAbs ''/home/u/proj/proj.exe''"
proof -
  have g: "getwd env_home = Some ''/home/u''" by (simp add: env_home_def)
  have a: "IsAbs ''/home/u''" by code_simp
  have h: "\<forall>cwd. getwd env_home = Some cwd \<longrightarrow> IsAbs cwd" using g a by simp
  have v: "getAppName env_home '''' ''/home/u/proj'' = Inr ''/home/u/proj/proj.exe''"
    by code_simp
  from getAppName_resolution [OF h, of "''''" "''/home/u/proj''"] v g a
  show ?thesis by simp
qed

section \<open>The arguments of the compiler\<close>

lemma flag_args_eq:
  "flag_args kvs args = args @ concat (map (\<lambda>(k, v). [''-'' @ k @ ''flags'', v]) kvs)"
  by (induction kvs arbitrary: args) auto

lemma goCmdArgs_eq:
  "goCmdArgs appName flags mainFiles =
     [''build'', ''-o'', appName] @ concat (map (\<lambda>(k, v). [''-'' @ k @ ''flags'', v]) flags)
       @ [''-v''] @ (if mainFiles = [] then [] else [mainFiles])"
  by (simp add: goCmdArgs_def Let_def flag_args_eq)

lemma concat_pairs_nth:
  "j < length kvs \<Longrightarrow>
   concat (map (\<lambda>(k, v). [f k, v]) kvs) ! (2 * j) = f (fst (kvs ! j)) \<and>
   concat (map (\<lambda>(k, v). [f k, v]) kvs) ! (2 * j + 1) = snd (kvs ! j)"
proof (induction kvs arbitrary: j)
  case Nil
  then show ?case by simp
next
  case (Cons kv kvs)
  obtain k v where kv: "kv = (k, v)" by (cases kv)
  show ?case
  proof (cases j)
    case 0
    with kv show ?thesis by simp
  next
    case (Suc i)
    with Cons.prems have "i < length kvs" by simp
    from Cons.IH [OF this] Suc kv show ?thesis by simp
  qed
qed

lemma length_concat_pairs: "length (concat (map (\<lambda>(k, v). [f k, v]) kvs)) = 2 * length kvs"
  by (induction kvs) auto

lemma in_set_pairs:
  assumes "(k, v) \<in> set kvs"
  shows "\<exists>j < length kvs. fst (kvs ! j) = k \<and> snd (kvs ! j) = v"
  using assms by (metis fst_conv in_set_conv_nth snd_conv)

lemma exts_log_one: "\<exists>l. exts_log es = [l]"
  by (simp add: exts_log_def)

lemma send_logs_three:
  "send_logs ch 0 [a, b, c] =
     (if ch 0 \<noteq> Sent then ([], ch 0)
      else if ch 1 \<noteq> Sent then ([Send a], ch 1)
      else if ch 2 \<noteq> Sent then ([Send a, Send b], ch 2)
      else ([Send a, Send b, Send c], Sent))"
proof -
  have n: "(1::nat) = Suc 0" "(2::nat) = Suc (Suc 0)" by simp_all
  show ?thesis unfolding n by (simp add: send_logs.simps split: send_result.splits)
qed

lemma send_three_cases:
  obtains (sent) "takes_three ch"
      "send_logs ch 0 [a, b, c] = ([Send a, Send b, Send c], Sent)"
    | (blocks) ev where "\<not> takes_three ch" "send_logs ch 0 [a, b, c] = (ev, SendBlocks)"
      "length ev < 3" "\<forall>x \<in> set ev. is_log x"
      "ch 0 = SendBlocks \<or> ch 1 = SendBlocks \<or> ch 2 = SendBlocks"
    | (panics) ev where "\<not> takes_three ch" "send_logs ch 0 [a, b, c] = (ev, SendPanics)"
      "length ev < 3" "\<forall>x \<in> set ev. is_log x"
      "ch 0 = SendPanics \<or> ch 1 = SendPanics \<or> ch 2 = SendPanics"
proof -
  have fin: thesis
    if "send_logs ch 0 [a, b, c] = (ev, r)" "r \<noteq> Sent" "length ev < 3"
      "\<forall>x \<in> set ev. is_log x" "r = ch 0 \<or> r = ch 1 \<or> r = ch 2" for ev r
  proof -
    from that(2,5) have nt: "\<not> takes_three ch" by (auto simp: takes_three_def)
    show ?thesis
    proof (cases r)
      case Sent
      with that(2) show ?thesis by simp
    next
      case SendBlocks
      with that nt show ?thesis by (intro blocks [of ev]) auto
    next
      case SendPanics
      with that nt show ?thesis by (intro panics [of ev]) auto
    qed
  qed
  consider "ch 0 \<noteq> Sent" | "ch 0 = Sent" "ch 1 \<noteq> Sent"
    | "ch 0 = Sent" "ch 1 = Sent" "ch 2 \<noteq> Sent"
    | "ch 0 = Sent" "ch 1 = Sent" "ch 2 = Sent"
    by blast
  then show ?thesis
  proof cases
    case 1
    then have "send_logs ch 0 [a, b, c] = ([], ch 0)" by (simp add: send_logs_three)
    with 1 show ?thesis by (intro fin [of "[]" "ch 0"]) simp_all
  next
    case 2
    then have "send_logs ch 0 [a, b, c] = ([Send a], ch 1)" by (simp add: send_logs_three)
    with 2 show ?thesis by (intro fin [of "[Send a]" "ch 1"]) simp_all
  next
    case 3
    then have "send_logs ch 0 [a, b, c] = ([Send a, Send b], ch 2)"
      by (simp add: send_logs_three)
    with 3 show ?thesis by (intro fin [of "[Send a, Send b]" "ch 2"]) simp_all
  next
    case 4
    then have "send_logs ch 0 [a, b, c] = ([Send a, Send b, Send c], Sent)"
      by (simp add: send_logs_three)
    with 4 show ?thesis by (intro sent) (simp_all add: takes_three_def)
  qed
qed

lemma built_fields:
  assumes "built (Build e logs mainFiles outputName flags extString recursive appArgString dir)
             = Some b"
  shows "\<exists>wd. dir \<noteq> [] \<and> Abs e (dir ! 0) = Inr wd \<and> getAppName e outputName wd = Inr (b_appName b)
           \<and> b_goCmdArgs b = goCmdArgs (b_appName b) flags mainFiles"
  using assms
  by (auto simp: Build_def Let_def
      split: if_splits sum.splits option.splits prod.splits send_result.splits)

text \<open>
  Claim C7. Whenever \<open>Build\<close> makes its builder, the argument list of the compiler is
  \<open>build\<close>, \<open>-o\<close>, the resolved output path, then for each entry of the flags map, in the
  order visited, the pair of \<open>-\<close> key \<open>flags\<close> and the value (so every entry of the map
  has its pair at two consecutive places before \<open>-v\<close>), then \<open>-v\<close>, and last the main
  files exactly when they are not empty. This holds whatever becomes of the sends on the
  log channel, the list being made before them.
\<close>

theorem Build_goCmdArgs:
  assumes "built (Build e logs mainFiles outputName flags extString recursive appArgString dir)
             = Some b"
  shows "b_goCmdArgs b =
           [''build'', ''-o'', b_appName b]
           @ concat (map (\<lambda>(k, v). [''-'' @ k @ ''flags'', v]) flags)
           @ [''-v''] @ (if mainFiles = [] then [] else [mainFiles])
         \<and> (\<exists>wd. Abs e (dir ! 0) = Inr wd \<and> getAppName e outputName wd = Inr (b_appName b))
         \<and> (\<forall>j < length flags.
               b_goCmdArgs b ! (3 + 2 * j) = ''-'' @ fst (flags ! j) @ ''flags'' \<and>
               b_goCmdArgs b ! (3 + 2 * j + 1) = snd (flags ! j))
         \<and> (\<forall>k v. (k, v) \<in> set flags \<longrightarrow>
               (\<exists>i. 3 \<le> i \<and> i + 1 < 3 + 2 * length flags \<and>
                    b_goCmdArgs b ! i = ''-'' @ k @ ''flags'' \<and> b_goCmdArgs b ! (i + 1) = v))
         \<and> b_goCmdArgs b ! (3 + 2 * length flags) = ''-v''
         \<and> last (b_goCmdArgs b) = (if mainFiles = [] then ''-v'' else mainFiles)"
proof -
  let ?pairs = "concat (map (\<lambda>(k, v). [''-'' @ k @ ''flags'', v]) flags)"
  from built_fields [OF assms] obtain wd where
    wd: "Abs e (dir ! 0) = Inr wd" "getAppName e outputName wd = Inr (b_appName b)"
    and args: "b_goCmdArgs b = goCmdArgs (b_appName b) flags mainFiles"
    by blast
  have eq: "b_goCmdArgs b =
      [''build'', ''-o'', b_appName b] @ ?pairs @ [''-v''] @ (if mainFiles = [] then [] else [mainFiles])"
    by (simp add: args goCmdArgs_eq)
  have len: "length ?pairs = 2 * length flags" by (rule length_concat_pairs)
  have pairs: "b_goCmdArgs b ! (3 + 2 * j) = ''-'' @ fst (flags ! j) @ ''flags'' \<and>
               b_goCmdArgs b ! (3 + 2 * j + 1) = snd (flags ! j)" if "j < length flags" for j
  proof -
    from that len have "2 * j < length ?pairs" "2 * j + 1 < length ?pairs" by simp_all
    then have "b_goCmdArgs b ! (3 + 2 * j) = ?pairs ! (2 * j)"
      "b_goCmdArgs b ! (3 + 2 * j + 1) = ?pairs ! (2 * j + 1)"
      by (simp_all add: eq nth_append nth_Cons')
    with concat_pairs_nth [OF that, of "\<lambda>k. ''-'' @ k @ ''flags''"] show ?thesis by simp
  qed
  have v: "b_goCmdArgs b ! (3 + 2 * length flags) = ''-v''"
    using len by (simp add: eq nth_append nth_Cons')
  have l: "last (b_goCmdArgs b) = (if mainFiles = [] then ''-v'' else mainFiles)"
    by (simp add: eq)
  have entry: "\<exists>i. 3 \<le> i \<and> i + 1 < 3 + 2 * length flags \<and>
      b_goCmdArgs b ! i = ''-'' @ k @ ''flags'' \<and> b_goCmdArgs b ! (i + 1) = v"
    if "(k, v) \<in> set flags" for k v
  proof -
    from in_set_pairs [OF that] obtain j where j: "j < length flags"
      "fst (flags ! j) = k" "snd (flags ! j) = v"
      by blast
    from pairs [OF j(1)] j have "3 \<le> 3 + 2 * j \<and> (3 + 2 * j) + 1 < 3 + 2 * length flags \<and>
        b_goCmdArgs b ! (3 + 2 * j) = ''-'' @ k @ ''flags'' \<and>
        b_goCmdArgs b ! ((3 + 2 * j) + 1) = v"
      by simp
    then show ?thesis by (rule exI)
  qed
  from eq wd pairs entry v l show ?thesis by blast
qed

theorem Build_goCmdArgs_witness:
  "built (Build env_home nil_chan ''main.go'' '''' [(''ld'', ''-s -w''), (''gc'', ''-N'')] ''go''
            False ''-p=80'' [''proj'']) =
     Some \<lparr>b_exts = [''.go''], b_appName = ''/home/u/proj/proj.exe'', b_wd = ''/home/u/proj'',
           b_appArgs = [''-p'', ''80''],
           b_goCmdArgs = [''build'', ''-o'', ''/home/u/proj/proj.exe'', ''-ldflags'', ''-s -w'',
                          ''-gcflags'', ''-N'', ''-v'', ''main.go'']\<rparr>"
proof -
  have v: "built (Build env_home nil_chan ''main.go'' '''' [(''ld'', ''-s -w''), (''gc'', ''-N'')] ''go''
            False ''-p=80'' [''proj'']) =
     Some \<lparr>b_exts = [''.go''], b_appName = ''/home/u/proj/proj.exe'', b_wd = ''/home/u/proj'',
           b_appArgs = [''-p'', ''80''],
           b_goCmdArgs = [''build'', ''-o'', ''/home/u/proj/proj.exe'', ''-ldflags'', ''-s -w'',
                          ''-gcflags'', ''-N'', ''-v'', ''main.go'']\<rparr>"
    by code_simp
  from Build_goCmdArgs [OF v] v show ?thesis by simp
qed

section \<open>How a call of \<open>Build\<close> ends\<close>

lemma splitArgs_Some: obtains ts where "splitArgs args = Some ts"
  using splitArgs_total by blast

text \<open>
  Claim C8, as stated, fails: the three logs are sent before the watch paths are
  expanded, so when the expansion would fail and the log channel is \<open>nil\<close>, \<open>Build\<close>
  blocks at the first send, and when the channel is closed it panics there; in neither
  case does it return the error of the expansion.
\<close>

theorem Build_expansion_counterexample:
  "Abs env_home ([''gone''] ! 0) = Inr ''/home/u/gone'' \<and>
   recursivePaths env_home True ([''gone''][0 := ''/home/u/gone'']) = Inl ErrLstat \<and>
   outcome (Build env_home nil_chan ''main.go'' '''' [] ''go'' True '''' [''gone'']) = Blocks \<and>
   outcome (Build env_home closed_chan ''main.go'' '''' [] ''go'' True '''' [''gone'']) = Panics"
  by code_simp

text \<open>
  Claim C8, amended. With no root directory \<open>Build\<close> returns its error at once, before any
  log event and any watching. It also returns an error, having sent no event at all,
  when the primary root does not resolve to an absolute path. When the expansion of the
  watch paths fails, no watching starts, whatever the log channel does: the events are
  logs only. \<open>Build\<close> then returns an error: that of the output name, no event sent, when
  the name did not resolve; otherwise that of the expansion, after its three logs,
  provided the log channel takes the three sends. When the channel does not take one of
  them, \<open>Build\<close> blocks or panics at that send and returns nothing.
\<close>

theorem Build_fails_before_watching:
  "(let r = Build e logs mainFiles outputName flags extString recursive appArgString dir in
    (dir = [] \<longrightarrow> outcome r = Returns (Some ErrNoDir) \<and> events r = []) \<and>
    (\<forall>err. dir \<noteq> [] \<and> Abs e (dir ! 0) = Inl err \<longrightarrow>
       outcome r = Returns (Some err) \<and> events r = []) \<and>
    (\<forall>wd err. dir \<noteq> [] \<and> Abs e (dir ! 0) = Inr wd \<and>
       recursivePaths e recursive (dir[0 := wd]) = Inl err \<longrightarrow>
       (\<forall>ev \<in> set (events r). is_log ev) \<and>
       (\<forall>err'. getAppName e outputName wd = Inl err' \<longrightarrow>
          outcome r = Returns (Some err') \<and> events r = []) \<and>
       (\<forall>name. getAppName e outputName wd = Inr name \<longrightarrow>
          (if takes_three logs
           then outcome r = Returns (Some err) \<and> length (events r) = 3
           else (outcome r = Blocks \<or> outcome r = Panics) \<and> length (events r) < 3))))"
proof -
  obtain ts where ts: "splitArgs appArgString = Some ts" by (rule splitArgs_Some)
  obtain l where l: "exts_log (getExts extString) = [l]" using exts_log_one by blast
  show ?thesis
  proof (cases "dir = []")
    case True
    then show ?thesis by (simp add: Build_def)
  next
    case ne: False
    show ?thesis
    proof (cases "Abs e (dir ! 0)")
      case (Inl err)
      with ne show ?thesis by (simp add: Build_def)
    next
      case (Inr wd)
      show ?thesis
      proof (cases "getAppName e outputName wd")
        case (Inl err)
        with ne Inr show ?thesis by (simp add: Build_def)
      next
        case name: (Inr name)
        let ?a = "\<lparr>Type = LogTypeInfo, Message = MsgAppArgs ts\<rparr>"
        let ?c = "\<lparr>Type = LogTypeInfo, Message = MsgAppName name\<rparr>"
        show ?thesis
        proof (cases rule: send_three_cases [of logs ?a l ?c])
          case sent
          with ne Inr name show ?thesis
            by (auto simp: Build_def Let_def ts l split: sum.splits)
        next
          case (blocks ev)
          with ne Inr name show ?thesis
            by (simp add: Build_def Let_def ts l)
        next
          case (panics ev)
          with ne Inr name show ?thesis
            by (simp add: Build_def Let_def ts l)
        qed
      qed
    qed
  qed
qed

theorem Build_fails_before_watching_witness:
  "outcome (Build env_home nil_chan ''main.go'' '''' [] ''go'' True '''' [])
     = Returns (Some ErrNoDir) \<and>
   events (Build env_home nil_chan ''main.go'' '''' [] ''go'' True '''' []) = [] \<and>
   Abs env_nocwd ([''proj''] ! 0) = Inl ErrGetwd \<and>
   outcome (Build env_nocwd nil_chan ''main.go'' '''' [] ''go'' True '''' [''proj''])
     = Returns (Some ErrGetwd) \<and>
   events (Build env_nocwd nil_chan ''main.go'' '''' [] ''go'' True '''' [''proj'']) = [] \<and>
   Abs env_home ([''gone''] ! 0) = Inr ''/home/u/gone'' \<and>
   recursivePaths env_home True ([''gone''][0 := ''/home/u/gone'']) = Inl ErrLstat \<and>
   getAppName env_home '''' ''/home/u/gone'' = Inr ''/home/u/gone/gone.exe'' \<and>
   takes_three read_chan \<and>
   outcome (Build env_home read_chan ''main.go'' '''' [] ''go'' True '''' [''gone''])
     = Returns (Some ErrLstat) \<and>
   length (events (Build env_home read_chan ''main.go'' '''' [] ''go'' True '''' [''gone''])) = 3 \<and>
   list_all is_log (events (Build env_home read_chan ''main.go'' '''' [] ''go'' True '''' [''gone''])) \<and>
   \<not> takes_three (unread_chan 2) \<and>
   outcome (Build env_home (unread_chan 2) ''main.go'' '''' [] ''go'' True '''' [''gone''])
     = Blocks \<and>
   Abs env_nocwd ([''/gone''] ! 0) = Inr ''/gone'' \<and>
   recursivePaths env_nocwd True ([''/gone''][0 := ''/gone'']) = Inl ErrLstat \<and>
   getAppName env_nocwd ''bin/x'' ''/gone'' = Inl ErrGetwd \<and>
   outcome (Build env_nocwd nil_chan ''main.go'' ''bin/x'' [] ''go'' True '''' [''/gone''])
     = Returns (Some ErrGetwd)"
proof -
  have a1: "Abs env_nocwd ([''proj''] ! 0) = Inl ErrGetwd" by code_simp
  have a2: "Abs env_home ([''gone''] ! 0) = Inr ''/home/u/gone''" by code_simp
  have a3: "recursivePaths env_home True ([''gone''][0 := ''/home/u/gone'']) = Inl ErrLstat"
    by code_simp
  have a4: "getAppName env_home '''' ''/home/u/gone'' = Inr ''/home/u/gone/gone.exe''"
    by code_simp
  have a5: "takes_three read_chan" by code_simp
  have a6: "\<not> takes_three (unread_chan 2)" by code_simp
  have a7: "Abs env_nocwd ([''/gone''] ! 0) = Inr ''/gone''" by code_simp
  have a8: "recursivePaths env_nocwd True ([''/gone''][0 := ''/gone'']) = Inl ErrLstat"
    by code_simp
  have a9: "getAppName env_nocwd ''bin/x'' ''/gone'' = Inl ErrGetwd" by code_simp
  have a10: "outcome (Build env_home (unread_chan 2) ''main.go'' '''' [] ''go'' True '''' [''gone''])
     = Blocks"
    by code_simp
  note t1 = Build_fails_before_watching
    [of env_home nil_chan "''main.go''" "''''" "[]" "''go''" True "''''" "[]"]
  note t2 = Build_fails_before_watching
    [of env_nocwd nil_chan "''main.go''" "''''" "[]" "''go''" True "''''" "[''proj'']"]
  note t3 = Build_fails_before_watching
    [of env_home read_chan "''main.go''" "''''" "[]" "''go''" True "''''" "[''gone'']"]
  note t4 = Build_fails_before_watching
    [of env_nocwd nil_chan "''main.go''" "''bin/x''" "[]" "''go''" True "''''" "[''/gone'']"]
  from t1 have b1: "outcome (Build env_home nil_chan ''main.go'' '''' [] ''go'' True '''' [])
       = Returns (Some ErrNoDir)
     \<and> events (Build env_home nil_chan ''main.go'' '''' [] ''go'' True '''' []) = []"
    by (simp add: Let_def)
  from t2 a1 have b2: "outcome (Build env_nocwd nil_chan ''main.go'' '''' [] ''go'' True '''' [''proj''])
       = Returns (Some ErrGetwd)
     \<and> events (Build env_nocwd nil_chan ''main.go'' '''' [] ''go'' True '''' [''proj'']) = []"
    by (simp add: Let_def)
  from t3 a2 a3 a4 a5
  have b3: "outcome (Build env_home read_chan ''main.go'' '''' [] ''go'' True '''' [''gone''])
       = Returns (Some ErrLstat)
     \<and> length (events (Build env_home read_chan ''main.go'' '''' [] ''go'' True '''' [''gone''])) = 3
     \<and> list_all is_log (events (Build env_home read_chan ''main.go'' '''' [] ''go'' True '''' [''gone'']))"
    by (auto simp: Let_def list_all_iff)
  from t4 a7 a8 a9
  have b4: "outcome (Build env_nocwd nil_chan ''main.go'' ''bin/x'' [] ''go'' True '''' [''/gone''])
     = Returns (Some ErrGetwd)"
    by (auto simp: Let_def)
  from a1 a2 a3 a4 a5 a6 a7 a8 a9 a10 b1 b2 b3 b4 show ?thesis by blast
qed

text \<open>
  Claim C9, as stated, fails: with one relative root and a working directory that cannot
  be determined, \<open>Build\<close> returns the error of \<open>filepath.Abs\<close> and the first element of
  \<open>dir\<close> is still the relative path.
\<close>

theorem Build_dir_counterexample:
  "Abs env_nocwd ([''proj'', ''lib''] ! 0) = Inl ErrGetwd \<and>
   outcome (Build env_nocwd read_chan ''main.go'' '''' [] ''go'' False '''' [''proj'', ''lib''])
     = Returns (Some ErrGetwd) \<and>
   dir_after (Build env_nocwd read_chan ''main.go'' '''' [] ''go'' False '''' [''proj'', ''lib''])
     = [''proj'', ''lib''] \<and>
   \<not> IsAbs (dir_after (Build env_nocwd read_chan ''main.go'' '''' [] ''go'' False ''''
                [''proj'', ''lib'']) ! 0)"
  by code_simp

text \<open>
  Claim C9, amended. On every call with at least one root whose first element resolves to
  an absolute path, the first element of the caller's \<open>dir\<close> is overwritten with that
  path, however the call ends afterwards and whatever the log channel does, and the
  remaining elements are unchanged. When the first element does not resolve, \<open>Build\<close>
  returns that error and \<open>dir\<close> is as it was.
\<close>

theorem Build_overwrites_first_root:
  "(let r = Build e logs mainFiles outputName flags extString recursive appArgString dir in
    (\<forall>wd. dir \<noteq> [] \<and> Abs e (dir ! 0) = Inr wd \<longrightarrow>
       dir_after r = wd # tl dir \<and> dir_after r ! 0 = wd \<and> tl (dir_after r) = tl dir) \<and>
    (\<forall>err. dir \<noteq> [] \<and> Abs e (dir ! 0) = Inl err \<longrightarrow>
       dir_after r = dir \<and> outcome r = Returns (Some err)))"
proof -
  have upd: "dir[0 := wd] = wd # tl dir" if "dir \<noteq> []" for wd
    using that by (cases dir) simp_all
  show ?thesis
    by (auto simp: Build_def Let_def upd
        split: sum.splits option.splits prod.splits send_result.splits)
qed

theorem Build_overwrites_first_root_witness:
  "Abs env_home ([''proj'', ''lib''] ! 0) = Inr ''/home/u/proj'' \<and>
   dir_after (Build env_home closed_chan ''main.go'' '''' [] ''go'' False '''' [''proj'', ''lib''])
     = [''/home/u/proj'', ''lib''] \<and>
   Abs env_nocwd ([''proj'', ''lib''] ! 0) = Inl ErrGetwd \<and>
   dir_after (Build env_nocwd read_chan ''main.go'' '''' [] ''go'' False '''' [''proj'', ''lib''])
     = [''proj'', ''lib'']"
proof -
  have a1: "Abs env_home ([''proj'', ''lib''] ! 0) = Inr ''/home/u/proj''" by code_simp
  have a2: "Abs env_nocwd ([''proj'', ''lib''] ! 0) = Inl ErrGetwd" by code_simp
  from Build_overwrites_first_root
    [of env_home closed_chan "''main.go''" "''''" "[]" "''go''" False "''''" "[''proj'', ''lib'']"] a1
  have b1: "dir_after (Build env_home closed_chan ''main.go'' '''' [] ''go'' False ''''
                [''proj'', ''lib''])
     = [''/home/u/proj'', ''lib'']"
    by (simp add: Let_def)
  from Build_overwrites_first_root
    [of env_nocwd read_chan "''main.go''" "''''" "[]" "''go''" False "''''" "[''proj'', ''lib'']"] a2
  have b2: "dir_after (Build env_nocwd read_chan ''main.go'' '''' [] ''go'' False ''''
                [''proj'', ''lib''])
     = [''proj'', ''lib'']"
    by (simp add: Let_def)
  from a1 a2 b1 b2 show ?thesis by blast
qed




section \<open>The path expander keeps the paths without a hidden segment after the first\<close>

lemma Split_hd_piece: "Split s c = w # ws \<Longrightarrow> w \<noteq> [] \<Longrightarrow> s \<noteq> [] \<and> hd w = hd s"
  by (cases s) (auto split: if_splits list.splits)

lemma Index_from_slash_dot:
  "(Index_from p ''/.'' i < 0) = (\<not> hidden_after_first p)"
proof (induction p arbitrary: i)
  case Nil
  then show ?case by (simp add: hidden_after_first_def)
next
  case (Cons x xs)
  obtain w ws where sp: "Split xs Separator = w # ws"
    using Split_nonempty [of xs Separator] by (cases "Split xs Separator") auto
  show ?case
  proof (cases "HasPrefix (x # xs) ''/.''")
    case True
    then obtain ys where x: "x = CHR ''/''" and xs: "xs = CHR ''.'' # ys"
      by (cases xs) (auto simp: HasPrefix_def)
    from xs sp have "hidden_name w" by (auto simp: hidden_name_def Separator_def split: list.splits)
    with True x sp show ?thesis by (simp add: hidden_after_first_def Separator_def)
  next
    case False
    show ?thesis
    proof (cases "x = Separator")
      case True
      have "\<not> hidden_name w"
      proof
        assume h: "hidden_name w"
        then have "w \<noteq> []" "hd w = CHR ''.''" by (simp_all add: hidden_name_def)
        with Split_hd_piece [OF sp] have "xs \<noteq> []" "hd xs = CHR ''.''" by simp_all
        with True False show False by (cases xs) (auto simp: HasPrefix_def Separator_def)
      qed
      with True False sp Cons.IH [of "i + 1"] show ?thesis
        by (simp add: hidden_after_first_def)
    next
      case neq: False
      with False sp Cons.IH [of "i + 1"] show ?thesis
        by (simp add: hidden_after_first_def)
    qed
  qed
qed

lemma Index_slash_dot: "(Index p ''/.'' < 0) = (\<not> hidden_after_first p)"
  by (simp add: Index_def Index_from_slash_dot)

lemma fwalk_eq:
  "(readable n \<longrightarrow>
      fwalk path n ret = Inr (ret @ filter (\<lambda>p. \<not> hidden_after_first p) (dirs path n))) \<and>
   (\<not> readable n \<longrightarrow> (\<exists>err. fwalk path n ret = Inl err))"
  "(readable_entries es \<longrightarrow>
      fwalk_entries path es ret =
        Inr (ret @ filter (\<lambda>p. \<not> hidden_after_first p) (dirs_entries path es))) \<and>
   (\<not> readable_entries es \<longrightarrow> (\<exists>err. fwalk_entries path es ret = Inl err))"
proof (induction path n ret and path es ret rule: fwalk_fwalk_entries.induct)
  case (1 path ret)
  then show ?case by (simp add: walk_def)
next
  case (2 path ret)
  then show ?case by (simp add: walk_def)
next
  case (3 path ret)
  then show ?case by (simp add: walk_def)
next
  case (4 path es ret)
  then show ?case by (auto simp: walk_def Index_slash_dot)
next
  case (5 path ret)
  then show ?case by simp
next
  case (6 path name n es ret)
  show ?case
  proof (cases "readable n")
    case True
    with 6 show ?thesis by auto
  next
    case False
    with "6.IH"(1) show ?thesis by auto
  qed
qed

lemma Walk_eq:
  "(root_readable e root \<longrightarrow>
      Walk e root ret = Inr (ret @ filter (\<lambda>p. \<not> hidden_after_first p) (root_dirs e root))) \<and>
   (\<not> root_readable e root \<longrightarrow> (\<exists>err. Walk e root ret = Inl err))"
  using fwalk_eq(1) [of _ root ret]
  by (auto simp: Walk_def root_readable_def root_dirs_def walk_def split: option.splits)

lemma walk_roots_eq:
  "(list_all (root_readable e) roots \<longrightarrow>
      walk_roots e roots ret =
        Inr (ret @ filter (\<lambda>p. \<not> hidden_after_first p) (concat (map (root_dirs e) roots)))) \<and>
   (\<not> list_all (root_readable e) roots \<longrightarrow> (\<exists>err. walk_roots e roots ret = Inl err))"
proof (induction roots arbitrary: ret)
  case Nil
  then show ?case by simp
next
  case (Cons r rs)
  show ?case
  proof (cases "root_readable e r")
    case True
    with Walk_eq [of e r ret] Cons.IH show ?thesis by auto
  next
    case False
    with Walk_eq [of e r ret] show ?thesis by auto
  qed
qed

lemma recursivePaths_eq:
  "recursivePaths e True roots = Inr res \<longleftrightarrow>
     list_all (root_readable e) roots \<and>
     res = filter (\<lambda>p. \<not> hidden_after_first p) (concat (map (root_dirs e) roots))"
  using walk_roots_eq [of e roots "[]"] by (auto simp: recursivePaths_def)

section \<open>Cleaned paths\<close>

lemma Split_append_sep: "Split (a @ c # b) c = Split a c @ Split b c"
proof (induction a)
  case Nil
  then show ?case by simp
next
  case (Cons x a)
  obtain w ws where "Split a c = w # ws"
    using Split_nonempty [of a c] by (cases "Split a c") auto
  with Cons show ?case by simp
qed

lemma IsAbs_Cons: "IsAbs p = (\<exists>q. p = Separator # q)"
  by (cases p) (auto simp: IsAbs_def HasPrefix_def)

lemma Clean_rooted: "IsAbs p \<Longrightarrow> Clean p = Separator # Join_strings (clean_stack p) [Separator]"
  by (auto simp: IsAbs_Cons Clean_def clean_stack_def Let_def)

lemma clean_elem_proper: "proper_name n \<Longrightarrow> clean_elem r out n = out @ [n]"
  by (simp add: clean_elem_def proper_name_def)

lemma foldl_clean_proper:
  "\<forall>c \<in> set cs. proper_name c \<Longrightarrow> foldl (clean_elem r) acc cs = acc @ cs"
  by (induction cs arbitrary: acc) (simp_all add: clean_elem_proper)

lemma clean_elem_keeps_proper:
  assumes "\<forall>c \<in> set out. proper_name c" "Separator \<notin> set e"
  shows "\<forall>c \<in> set (clean_elem True out e). proper_name c"
  using assms by (auto simp: clean_elem_def proper_name_def dest: in_set_butlastD)

lemma foldl_clean_keeps_proper:
  "\<forall>c \<in> set acc. proper_name c \<Longrightarrow> \<forall>e \<in> set cs. Separator \<notin> set e \<Longrightarrow>
   \<forall>c \<in> set (foldl (clean_elem True) acc cs). proper_name c"
proof (induction cs arbitrary: acc)
  case Nil
  then show ?case by simp
next
  case (Cons e cs)
  from Cons.prems have 1: "\<forall>c \<in> set (clean_elem True acc e). proper_name c"
    by (intro clean_elem_keeps_proper) auto
  from Cons.prems(2) have 2: "\<forall>e \<in> set cs. Separator \<notin> set e" by simp
  from Cons.IH [OF 1 2] show ?case by simp
qed

lemma clean_stack_proper: "c \<in> set (clean_stack p) \<Longrightarrow> proper_name c"
  using foldl_clean_keeps_proper [of "[]" "Split p Separator"]
  by (auto simp: clean_stack_def dest: Split_no_sep)

lemma Join_abs:
  assumes "IsAbs q" "proper_name n"
  shows "Join [q, n] = Separator # Join_strings (clean_stack q @ [n]) [Separator]"
proof -
  from assms(1) obtain q' where q: "q = Separator # q'" by (auto simp: IsAbs_Cons)
  from assms(2) have "Split n Separator = [n]" by (simp add: Split_piece proper_name_def)
  then have "clean_stack (q @ Separator # n) = clean_stack q @ [n]"
    by (simp add: clean_stack_def Split_append_sep clean_elem_proper assms(2))
  moreover have "IsAbs (q @ Separator # n)" by (simp add: q IsAbs_Cons)
  ultimately have "Clean (q @ Separator # n) = Separator # Join_strings (clean_stack q @ [n]) [Separator]"
    by (simp add: Clean_rooted)
  with q show ?thesis by simp
qed

lemma clean_stack_canonical:
  assumes "\<forall>c \<in> set cs. proper_name c"
  shows "clean_stack (Separator # Join_strings cs [Separator]) = cs"
proof (cases "cs = []")
  case True
  then show ?thesis by (simp add: clean_stack_def clean_elem_def)
next
  case False
  with assms have "Split (Join_strings cs [Separator]) Separator = cs"
    by (intro Split_Join) (auto simp: proper_name_def)
  with assms show ?thesis
    by (simp add: clean_stack_def clean_elem_def foldl_clean_proper)
qed

lemma walk_path_abs:
  "IsAbs q \<Longrightarrow> ns \<noteq> [] \<Longrightarrow> \<forall>n \<in> set ns. proper_name n \<Longrightarrow>
   walk_path q ns = Separator # Join_strings (clean_stack q @ ns) [Separator]"
proof (induction ns arbitrary: q)
  case Nil
  then show ?case by simp
next
  case (Cons n ns)
  let ?q' = "Separator # Join_strings (clean_stack q @ [n]) [Separator]"
  from Cons.prems have j: "Join [q, n] = ?q'" by (simp add: Join_abs del: Join.simps)
  show ?case
  proof (cases "ns = []")
    case True
    with j show ?thesis by (simp del: Join.simps)
  next
    case False
    have abs: "IsAbs ?q'" by (simp add: IsAbs_Cons)
    have "\<forall>c \<in> set (clean_stack q @ [n]). proper_name c"
      using Cons.prems(3) by (auto dest: clean_stack_proper)
    then have "clean_stack ?q' = clean_stack q @ [n]" by (rule clean_stack_canonical)
    with Cons.IH [OF abs False] Cons.prems(3) j show ?thesis by (simp del: Join.simps)
  qed
qed

lemma hidden_canonical:
  assumes "\<forall>c \<in> set cs. proper_name c" "\<exists>c \<in> set cs. hidden_name c"
  shows "hidden_after_first (Separator # Join_strings cs [Separator])"
proof -
  from assms(2) have "cs \<noteq> []" by auto
  with assms(1) have "Split (Join_strings cs [Separator]) Separator = cs"
    by (intro Split_Join) (auto simp: proper_name_def)
  with assms(2) show ?thesis by (simp add: hidden_after_first_def list_ex_iff)
qed

lemma walk_path_hidden:
  assumes "IsAbs q" "\<forall>n \<in> set ns. proper_name n" "\<exists>n \<in> set ns. hidden_name n"
  shows "hidden_after_first (walk_path q ns)"
proof -
  from assms(3) have ne: "ns \<noteq> []" by auto
  have "\<forall>c \<in> set (clean_stack q @ ns). proper_name c"
    using assms(2) by (auto dest: clean_stack_proper)
  moreover have "\<exists>c \<in> set (clean_stack q @ ns). hidden_name c" using assms(3) by auto
  ultimately show ?thesis
    unfolding walk_path_abs [OF assms(1) ne assms(2)] by (rule hidden_canonical)
qed

lemma map_walk_path_Cons:
  "map (walk_path path) (map ((#) name) xs) = map (walk_path (Join [path, name])) xs"
  by (induction xs) (simp_all del: Join.simps)

lemma dirs_chains:
  "dirs path n = map (walk_path path) (dir_chains n)"
  "dirs_entries path es = map (walk_path path) (chains_entries es)"
proof (induction path n and path es rule: dirs_dirs_entries.induct)
  case (1 path es)
  then show ?case by simp
next
  case (2 path)
  then show ?case by simp
next
  case (3 path)
  then show ?case by simp
next
  case (4 path)
  then show ?case by simp
next
  case (5 path)
  then show ?case by simp
next
  case (6 path name n es)
  then show ?case by (simp add: map_walk_path_Cons del: Join.simps map_map)
qed

lemma chains_proper:
  "proper_names n \<Longrightarrow> ns \<in> set (dir_chains n) \<Longrightarrow> c \<in> set ns \<Longrightarrow> proper_name c"
  "proper_entries es \<Longrightarrow> ns \<in> set (chains_entries es) \<Longrightarrow> c \<in> set ns \<Longrightarrow> proper_name c"
proof (induction n and es arbitrary: ns and ns rule: dir_chains_chains_entries.induct)
  case (1 es)
  then show ?case by auto
next
  case 2
  then show ?case by simp
next
  case 3
  then show ?case by simp
next
  case 4
  then show ?case by simp
next
  case 5
  then show ?case by simp
next
  case (6 name n es)
  from "6.prems"(2) consider ms where "ns = name # ms" "ms \<in> set (dir_chains n)"
    | "ns \<in> set (chains_entries es)"
    by auto
  then show ?case
  proof cases
    case 1
    with "6.prems" "6.IH"(1) [of ms] show ?thesis by auto
  next
    case 2
    with "6.prems" "6.IH"(2) [of ns] show ?thesis by auto
  qed
qed

lemma canon_Nil: "canon []"
  unfolding canon_def by (rule exI [of _ 0]) simp

lemma canon_elem_cases: "canon cs \<Longrightarrow> c \<in> set cs \<Longrightarrow> c = ''..'' \<or> proper_name c"
  by (auto simp: canon_def)

lemma canon_elems:
  assumes "canon cs" "c \<in> set cs" shows "c \<noteq> [] \<and> Separator \<notin> set c"
proof -
  from assms have "c = ''..'' \<or> proper_name c" by (rule canon_elem_cases)
  then show ?thesis
  proof
    assume "c = ''..''"
    then show ?thesis by (simp add: Separator_def)
  next
    assume "proper_name c"
    then show ?thesis by (simp add: proper_name_def)
  qed
qed

lemma canon_snoc: "canon cs \<Longrightarrow> proper_name n \<Longrightarrow> canon (cs @ [n])"
proof -
  assume "canon cs" and n: "proper_name n"
  then obtain k ps where "cs = replicate k ''..'' @ ps" "\<forall>c \<in> set ps. proper_name c"
    by (auto simp: canon_def)
  with n have "cs @ [n] = replicate k ''..'' @ (ps @ [n]) \<and> (\<forall>c \<in> set (ps @ [n]). proper_name c)"
    by simp
  then show ?thesis unfolding canon_def by blast
qed

lemma clean_elem_canon:
  assumes "canon out" "Separator \<notin> set e"
  shows "canon (clean_elem False out e)"
proof -
  from assms(1) obtain k ps where out: "out = replicate k ''..'' @ ps"
    and ps: "\<forall>c \<in> set ps. proper_name c"
    by (auto simp: canon_def)
  show ?thesis
  proof (cases "e = [] \<or> e = ''.''")
    case True
    with assms(1) show ?thesis by (auto simp: clean_elem_def)
  next
    case skip: False
    show ?thesis
    proof (cases "e = ''..''")
      case False
      with skip assms(2) have "proper_name e" by (simp add: proper_name_def)
      with assms(1) show ?thesis by (simp add: clean_elem_proper canon_snoc)
    next
      case True
      show ?thesis
      proof (cases "ps = []")
        case True
        with out have "clean_elem False out ''..'' = replicate (Suc k) ''..'' @ []"
          by (cases k) (auto simp: clean_elem_def replicate_append_same)
        then show ?thesis using \<open>e = ''..''\<close> unfolding canon_def by (metis empty_iff list.set(1))
      next
        case False
        with ps have "last ps \<noteq> ''..''" by (auto simp: proper_name_def)
        with False out have "clean_elem False out ''..'' = replicate k ''..'' @ butlast ps"
          by (simp add: clean_elem_def butlast_append)
        moreover from ps have "\<forall>c \<in> set (butlast ps). proper_name c"
          by (auto dest: in_set_butlastD)
        ultimately show ?thesis using \<open>e = ''..''\<close> unfolding canon_def by blast
      qed
    qed
  qed
qed

lemma foldl_clean_canon:
  "canon acc \<Longrightarrow> \<forall>e \<in> set cs. Separator \<notin> set e \<Longrightarrow> canon (foldl (clean_elem False) acc cs)"
proof (induction cs arbitrary: acc)
  case Nil
  then show ?case by simp
next
  case (Cons e cs)
  from Cons.prems have 1: "canon (clean_elem False acc e)" by (intro clean_elem_canon) auto
  from Cons.prems(2) have 2: "\<forall>e \<in> set cs. Separator \<notin> set e" by simp
  from Cons.IH [OF 1 2] show ?case by simp
qed

lemma rel_stack_canon: "canon (rel_stack p)"
  unfolding rel_stack_def
  by (rule foldl_clean_canon [OF canon_Nil]) (auto dest: Split_no_sep)

lemma foldl_clean_dotdots:
  "foldl (clean_elem False) (replicate k ''..'') (replicate j ''..'') = replicate (k + j) ''..''"
proof (induction j arbitrary: k)
  case 0
  then show ?case by simp
next
  case (Suc j)
  have "clean_elem False (replicate k ''..'') ''..'' = replicate (Suc k) ''..''"
    by (cases k) (auto simp: clean_elem_def replicate_append_same)
  with Suc [of "Suc k"] show ?case by simp
qed

lemma foldl_clean_canon_id:
  assumes "canon cs" shows "foldl (clean_elem False) [] cs = cs"
proof -
  from assms obtain k ps where cs: "cs = replicate k ''..'' @ ps"
    and ps: "\<forall>c \<in> set ps. proper_name c"
    by (auto simp: canon_def)
  have "foldl (clean_elem False) [] (replicate k ''..'') = replicate k ''..''"
    using foldl_clean_dotdots [of 0 k] by simp
  with ps show ?thesis by (simp add: cs foldl_clean_proper)
qed

lemma set_Join_strings: "x \<in> set xs \<Longrightarrow> set x \<subseteq> set (Join_strings xs sep)"
  by (induction xs sep rule: Join_strings.induct) auto

lemma hd_Join_strings: "xs \<noteq> [] \<Longrightarrow> hd xs \<noteq> [] \<Longrightarrow> hd (Join_strings xs sep) = hd (hd xs)"
  by (induction xs sep rule: Join_strings.induct) auto

lemma Join_strings_nonempty:
  assumes "x \<in> set xs" "x \<noteq> []" shows "Join_strings xs sep \<noteq> []"
  using set_Join_strings [OF assms(1), of sep] assms(2) by auto

lemma canon_path_relative:
  assumes "canon cs" "cs \<noteq> []"
  shows "Join_strings cs [Separator] \<noteq> [] \<and> \<not> IsAbs (Join_strings cs [Separator])"
proof -
  from assms have h: "hd cs \<in> set cs" by simp
  with assms(1) have ne: "hd cs \<noteq> []" and ns: "Separator \<notin> set (hd cs)"
    by (auto dest: canon_elems)
  from h ne have j: "Join_strings cs [Separator] \<noteq> []" by (rule Join_strings_nonempty)
  from ne ns have "hd (hd cs) \<noteq> Separator" by (cases "hd cs") auto
  with assms(2) ne have "hd (Join_strings cs [Separator]) \<noteq> Separator"
    by (simp add: hd_Join_strings)
  with j show ?thesis by (auto simp: IsAbs_Cons)
qed

lemma Clean_relative:
  assumes "p \<noteq> []" "\<not> IsAbs p"
  shows "Clean p = (if rel_stack p = [] then ''.'' else Join_strings (rel_stack p) [Separator])"
proof -
  from assms have nr: "hd p \<noteq> Separator" by (cases p) (auto simp: IsAbs_Cons)
  show ?thesis
  proof (cases "rel_stack p = []")
    case True
    with assms nr show ?thesis by (simp add: Clean_def rel_stack_def Let_def)
  next
    case False
    with canon_path_relative [OF rel_stack_canon False]
    have "Join_strings (rel_stack p) [Separator] \<noteq> []" by simp
    with assms nr False show ?thesis by (simp add: Clean_def rel_stack_def Let_def)
  qed
qed

lemma rel_stack_canonical:
  assumes "canon cs" "cs \<noteq> []"
  shows "rel_stack (Join_strings cs [Separator]) = cs"
proof -
  from assms have "Split (Join_strings cs [Separator]) Separator = cs"
    by (intro Split_Join) (auto dest: canon_elems)
  with assms(1) show ?thesis by (simp add: rel_stack_def foldl_clean_canon_id)
qed

lemma Join_rel:
  assumes "q \<noteq> []" "\<not> IsAbs q" "proper_name n"
  shows "Join [q, n] = Join_strings (rel_stack q @ [n]) [Separator]"
proof -
  from assms(3) have "Split n Separator = [n]" by (simp add: Split_piece proper_name_def)
  then have st: "rel_stack (q @ Separator # n) = rel_stack q @ [n]"
    by (simp add: rel_stack_def Split_append_sep clean_elem_proper assms(3))
  from assms(1,2) obtain x q' where "q = x # q'" "x \<noteq> Separator"
    by (cases q) (auto simp: IsAbs_Cons)
  then have "q @ Separator # n \<noteq> []" "\<not> IsAbs (q @ Separator # n)"
    by (simp_all add: IsAbs_Cons)
  then have "Clean (q @ Separator # n) = Join_strings (rel_stack q @ [n]) [Separator]"
    by (simp add: Clean_relative st)
  with assms(1) show ?thesis by simp
qed

lemma walk_path_rel:
  "q \<noteq> [] \<Longrightarrow> \<not> IsAbs q \<Longrightarrow> ns \<noteq> [] \<Longrightarrow> \<forall>n \<in> set ns. proper_name n \<Longrightarrow>
   walk_path q ns = Join_strings (rel_stack q @ ns) [Separator]"
proof (induction ns arbitrary: q)
  case Nil
  then show ?case by simp
next
  case (Cons n ns)
  let ?q' = "Join_strings (rel_stack q @ [n]) [Separator]"
  from Cons.prems have j: "Join [q, n] = ?q'" by (simp add: Join_rel del: Join.simps)
  show ?case
  proof (cases "ns = []")
    case True
    with j show ?thesis by (simp del: Join.simps)
  next
    case False
    from Cons.prems(4) have c: "canon (rel_stack q @ [n])"
      by (intro canon_snoc rel_stack_canon) simp
    then have rel: "?q' \<noteq> []" "\<not> IsAbs ?q'"
      using canon_path_relative [of "rel_stack q @ [n]"] by simp_all
    from c have "rel_stack ?q' = rel_stack q @ [n]" by (intro rel_stack_canonical) simp_all
    with Cons.IH [OF rel False] Cons.prems(4) j show ?thesis by (simp del: Join.simps)
  qed
qed

lemma hidden_canonical_rel:
  assumes "canon cs" "cs \<noteq> []"
  shows "hidden_after_first (Join_strings cs [Separator]) = list_ex hidden_name (tl cs)"
proof -
  from assms have "Split (Join_strings cs [Separator]) Separator = cs"
    by (intro Split_Join) (auto dest: canon_elems)
  then show ?thesis by (simp add: hidden_after_first_def)
qed

lemma Clean_dot_iff:
  "Clean root \<noteq> ''.'' \<longleftrightarrow> IsAbs root \<or> (root \<noteq> [] \<and> rel_stack root \<noteq> [])"
proof (cases "IsAbs root")
  case True
  then show ?thesis by (auto simp: Clean_rooted Separator_def)
next
  case False
  show ?thesis
  proof (cases "root = []")
    case True
    with False show ?thesis by (simp add: Clean_def)
  next
    case ne: False
    show ?thesis
    proof (cases "rel_stack root = []")
      case True
      with False ne show ?thesis by (simp add: Clean_relative)
    next
      case st: False
      then obtain c cs where cs: "rel_stack root = c # cs" by (cases "rel_stack root") auto
      have can: "canon (rel_stack root)" by (rule rel_stack_canon)
      have "Join_strings (rel_stack root) [Separator] \<noteq> ''.''"
      proof (cases cs)
        case Nil
        from can cs have "c = ''..'' \<or> proper_name c"
          by (intro canon_elem_cases [of "rel_stack root"]) simp_all
        with Nil cs show ?thesis by (auto simp: proper_name_def)
      next
        case (Cons d ds)
        with cs have "Separator \<in> set (Join_strings (rel_stack root) [Separator])" by simp
        then show ?thesis by (auto simp: Separator_def)
      qed
      with False ne st show ?thesis by (simp add: Clean_relative)
    qed
  qed
qed

lemma walk_path_hidden_rel:
  assumes "q \<noteq> []" "\<not> IsAbs q" "rel_stack q \<noteq> []"
    "\<forall>n \<in> set ns. proper_name n" "\<exists>n \<in> set ns. hidden_name n"
  shows "hidden_after_first (walk_path q ns)"
proof -
  from assms(5) have ne: "ns \<noteq> []" by auto
  have c: "canon (rel_stack q @ ns)"
    using assms(4)
  proof (induction ns rule: rev_induct)
    case Nil
    then show ?case by (simp add: rel_stack_canon)
  next
    case (snoc n ns)
    then have "canon ((rel_stack q @ ns) @ [n])" by (intro canon_snoc) simp_all
    then show ?case by simp
  qed
  from assms(3,5) have "list_ex hidden_name (tl (rel_stack q @ ns))"
    by (cases "rel_stack q") (auto simp: list_ex_iff)
  with c ne show ?thesis
    by (simp add: walk_path_rel [OF assms(1,2) ne assms(4)] hidden_canonical_rel)
qed

lemma walk_path_hidden_general:
  assumes "Clean root \<noteq> ''.''" "\<forall>n \<in> set ns. proper_name n" "\<exists>n \<in> set ns. hidden_name n"
  shows "hidden_after_first (walk_path root ns)"
proof (cases "IsAbs root")
  case True
  then show ?thesis using assms(2,3) by (rule walk_path_hidden)
next
  case False
  with assms(1) have "root \<noteq> []" "rel_stack root \<noteq> []" by (simp_all add: Clean_dot_iff)
  then show ?thesis using False assms(2,3) by (intro walk_path_hidden_rel)
qed

lemma proper_canon: "\<forall>c \<in> set ns. proper_name c \<Longrightarrow> canon ns"
  unfolding canon_def by (rule exI [of _ 0]) simp

lemma Clean_proper: assumes "proper_name n" shows "Clean n = n"
proof -
  from assms have ne: "n \<noteq> []" and nr: "\<not> IsAbs n"
    by (auto simp: proper_name_def IsAbs_Cons)
  from assms have "Split n Separator = [n]" by (simp add: Split_piece proper_name_def)
  then have "rel_stack n = [n]" by (simp add: rel_stack_def clean_elem_proper assms)
  with ne nr show ?thesis by (simp add: Clean_relative)
qed

lemma rel_stack_proper: assumes "proper_name n" shows "rel_stack n = [n]"
proof -
  from assms have "Split n Separator = [n]" by (simp add: Split_piece proper_name_def)
  then show ?thesis by (simp add: rel_stack_def clean_elem_proper assms)
qed

lemma walk_path_dot:
  assumes "Clean root = ''.''" "ns \<noteq> []" "\<forall>n \<in> set ns. proper_name n"
  shows "walk_path root ns = Join_strings ns [Separator]"
proof (cases "root = []")
  case False
  from assms(1) have "\<not> (IsAbs root \<or> (root \<noteq> [] \<and> rel_stack root \<noteq> []))"
    using Clean_dot_iff [of root] by simp
  with False have "\<not> IsAbs root" "rel_stack root = []" by simp_all
  with walk_path_rel [OF False this(1) assms(2,3)] show ?thesis by simp
next
  case True
  from assms(2) obtain n ms where ns: "ns = n # ms" by (cases ns) auto
  with assms(3) have n: "proper_name n" and ms: "\<forall>m \<in> set ms. proper_name m" by simp_all
  from n have ne: "n \<noteq> []" and nr: "\<not> IsAbs n" by (auto simp: proper_name_def IsAbs_Cons)
  from n ne have j: "Join [root, n] = n" by (simp add: True Clean_proper)
  show ?thesis
  proof (cases "ms = []")
    case True
    with j ns show ?thesis by (simp del: Join.simps)
  next
    case False
    from walk_path_rel [OF ne nr False ms] j ns n show ?thesis
      by (simp add: rel_stack_proper del: Join.simps)
  qed
qed

lemma walk_path_dot_hidden:
  assumes "Clean root = ''.''" "ns \<noteq> []" "\<forall>n \<in> set ns. proper_name n"
  shows "hidden_after_first (walk_path root ns) = list_ex hidden_name (tl ns)"
  using assms by (simp add: walk_path_dot hidden_canonical_rel proper_canon)

section \<open>Hidden directories and the roots of the walk\<close>

text \<open>
  What the test of line 197 does, for every root. With the recursive flag set, the
  expansion succeeds exactly when every root and everything below it can be read, and
  the result then holds, in the order of the walk, the directories of each root's
  subtree whose walked path has no segment after its first one that starts with a dot.
  For every root whose cleaned path is not \<open>.\<close> (every absolute root among them), this
  drops each directory below the root that is reached through a name starting with a
  dot, such as \<open>.git\<close> and all that is below it. For a root whose cleaned path is \<open>.\<close>
  the test misses: a directory below the root is walked under the names on the way down
  joined by separators, the first of which the test does not look at.
\<close>

lemma recursivePaths_filter:
  "(recursivePaths e True roots = Inr res \<longleftrightarrow>
      list_all (root_readable e) roots \<and>
      res = filter (\<lambda>p. \<not> hidden_after_first p) (concat (map (root_dirs e) roots))) \<and>
   (\<forall>root n ns.
      recursivePaths e True roots = Inr res \<and> root \<in> set roots \<and> Clean root \<noteq> ''.'' \<and>
      lstat e root = Some n \<and> proper_names n \<and>
      ns \<in> set (dir_chains n) \<and> list_ex hidden_name ns \<longrightarrow>
      walk_path root ns \<in> set (root_dirs e root) \<and> walk_path root ns \<notin> set res) \<and>
   (\<forall>root n ns.
      recursivePaths e True roots = Inr res \<and> root \<in> set roots \<and> Clean root = ''.'' \<and>
      lstat e root = Some n \<and> proper_names n \<and>
      ns \<in> set (dir_chains n) \<and> ns \<noteq> [] \<longrightarrow>
      walk_path root ns = Join_strings ns [Separator] \<and>
      (walk_path root ns \<in> set res) = (\<not> list_ex hidden_name (tl ns)))"
proof (intro conjI)
  show "recursivePaths e True roots = Inr res \<longleftrightarrow>
      list_all (root_readable e) roots \<and>
      res = filter (\<lambda>p. \<not> hidden_after_first p) (concat (map (root_dirs e) roots))"
    by (rule recursivePaths_eq)
next
  show "\<forall>root n ns.
      recursivePaths e True roots = Inr res \<and> root \<in> set roots \<and> Clean root \<noteq> ''.'' \<and>
      lstat e root = Some n \<and> proper_names n \<and>
      ns \<in> set (dir_chains n) \<and> list_ex hidden_name ns \<longrightarrow>
      walk_path root ns \<in> set (root_dirs e root) \<and> walk_path root ns \<notin> set res"
  proof (intro allI impI)
    fix root n ns
    assume a: "recursivePaths e True roots = Inr res \<and> root \<in> set roots \<and> Clean root \<noteq> ''.'' \<and>
      lstat e root = Some n \<and> proper_names n \<and>
      ns \<in> set (dir_chains n) \<and> list_ex hidden_name ns"
    then have res: "res = filter (\<lambda>p. \<not> hidden_after_first p) (concat (map (root_dirs e) roots))"
      by (simp add: recursivePaths_eq)
    from a have "\<forall>c \<in> set ns. proper_name c" by (auto dest: chains_proper(1))
    moreover from a have "\<exists>c \<in> set ns. hidden_name c" by (simp add: list_ex_iff)
    ultimately have "hidden_after_first (walk_path root ns)"
      using a by (intro walk_path_hidden_general) auto
    with res have "walk_path root ns \<notin> set res" by simp
    moreover from a have "walk_path root ns \<in> set (root_dirs e root)"
      by (simp add: root_dirs_def dirs_chains(1))
    ultimately show "walk_path root ns \<in> set (root_dirs e root) \<and> walk_path root ns \<notin> set res"
      by simp
  qed
next
  show "\<forall>root n ns.
      recursivePaths e True roots = Inr res \<and> root \<in> set roots \<and> Clean root = ''.'' \<and>
      lstat e root = Some n \<and> proper_names n \<and>
      ns \<in> set (dir_chains n) \<and> ns \<noteq> [] \<longrightarrow>
      walk_path root ns = Join_strings ns [Separator] \<and>
      (walk_path root ns \<in> set res) = (\<not> list_ex hidden_name (tl ns))"
  proof (intro allI impI)
    fix root n ns
    assume a: "recursivePaths e True roots = Inr res \<and> root \<in> set roots \<and> Clean root = ''.'' \<and>
      lstat e root = Some n \<and> proper_names n \<and>
      ns \<in> set (dir_chains n) \<and> ns \<noteq> []"
    then have res: "res = filter (\<lambda>p. \<not> hidden_after_first p) (concat (map (root_dirs e) roots))"
      by (simp add: recursivePaths_eq)
    from a have p: "\<forall>c \<in> set ns. proper_name c" by (auto dest: chains_proper(1))
    from a have "walk_path root ns \<in> set (root_dirs e root)"
      by (simp add: root_dirs_def dirs_chains(1))
    with a have "walk_path root ns \<in> set (concat (map (root_dirs e) roots))" by auto
    with res have "(walk_path root ns \<in> set res) = (\<not> hidden_after_first (walk_path root ns))"
      by simp
    moreover from a p have "hidden_after_first (walk_path root ns) = list_ex hidden_name (tl ns)"
      by (intro walk_path_dot_hidden) simp_all
    moreover from a p have "walk_path root ns = Join_strings ns [Separator]"
      by (intro walk_path_dot) simp_all
    ultimately show "walk_path root ns = Join_strings ns [Separator] \<and>
      (walk_path root ns \<in> set res) = (\<not> list_ex hidden_name (tl ns))"
      by simp
  qed
qed

text \<open>
  Claim C2. The hidden directories are to be left out for every root. On the root \<open>.\<close>
  the code keeps them: of one and the same tree, \<open>.git\<close> and \<open>.git/objects\<close> are
  dropped under the absolute root and are part of the result under the root \<open>.\<close>,
  where only the hidden directory one level further down, \<open>src/.x\<close>, is dropped. So
  \<open>Build\<close>, which makes only its first root absolute, initialises the watcher with the
  hidden directories of a second root \<open>.\<close>.
\<close>

theorem recursivePaths_dot_root:
  "lstat env_home ''/home/u/proj'' = Some tree_proj \<and>
   lstat env_home ''.'' = Some tree_proj \<and>
   recursivePaths env_home True [''/home/u/proj''] =
     Inr [''/home/u/proj'', ''/home/u/proj/src'', ''/home/u/proj/src/y''] \<and>
   recursivePaths env_home True [''.''] =
     Inr [''.'', ''.git'', ''.git/objects'', ''src'', ''src/y''] \<and>
   events (Build env_home read_chan ''main.go'' '''' [] ''go'' True '''' [''proj'', ''.'']) ! 3 =
     InitWatcher [''/home/u/proj'', ''/home/u/proj/src'', ''/home/u/proj/src/y'',
                  ''.'', ''.git'', ''.git/objects'', ''src'', ''src/y'']"
  by code_simp

end
